theory Spec2Isabelle
  imports Complex_Main
begin

section \<open>Dense padded storage\<close>

text \<open>
  The solver's \<open>double\<close> values are modelled by exact reals: rounding, infinities and NaN
  are outside the model. A \<open>double\<close> division by zero gives an infinity or NaN where the
  division of the reals gives 0, so the sweeps of the pointer-form solver record every
  division whose divisor is zero in the field \<open>div_by_zero\<close> of the memory: once it is set,
  the values of the model no longer stand for those of the code. Arrays are lists, read with \<open>!\<close> and
  written with \<open>list_update\<close>; the buffers a caller passes are distinct objects, so each is
  a separate field of the memory record below.
\<close>

text \<open>
  Modelled from the spec: the macro \<open>dPAD\<close> of dart/external/odelcpsolver is not among the
  sources. The spec gives \<open>pad(n) \<ge> n\<close> and \<open>pad(n) \<equiv> 0 mod 4\<close>: \<open>n\<close> rounded up to a
  multiple of 4.
\<close>

definition dPAD :: "nat \<Rightarrow> nat" where
  "dPAD n = ((n + 3) div 4) * 4"

text \<open>\<open>#define PGS_EPSILON 10e-9\<close>, that is \<open>10 * 10^-9\<close>.\<close>

definition PGS_EPSILON :: real where
  "PGS_EPSILON = 10 / 10 ^ 9"

section \<open>PgsBoxedLcpSolver::canSolve\<close>

function canSolve_inner :: "nat \<Rightarrow> nat \<Rightarrow> real list \<Rightarrow> nat \<Rightarrow> nat \<Rightarrow> bool" where
  "canSolve_inner n nskip A i j =
     (if j < n then
        (if \<bar>A ! (nskip * i + j) - A ! (nskip * j + i)\<bar> > PGS_EPSILON then False
         else canSolve_inner n nskip A i (j + 1))
      else True)"
  by pat_completeness auto
termination
  by (relation "measure (\<lambda>(n, nskip, A, i, j). n - j)") auto

declare canSolve_inner.simps [simp del]

function canSolve_outer :: "nat \<Rightarrow> nat \<Rightarrow> real list \<Rightarrow> nat \<Rightarrow> bool" where
  "canSolve_outer n nskip A i =
     (if i < n then
        (if A ! (nskip * i + i) < PGS_EPSILON then False
         else if \<not> canSolve_inner n nskip A i 0 then False
         else canSolve_outer n nskip A (i + 1))
      else True)"
  by pat_completeness auto
termination
  by (relation "measure (\<lambda>(n, nskip, A, i). n - i)") auto

declare canSolve_outer.simps [simp del]

definition canSolve :: "nat \<Rightarrow> real list \<Rightarrow> bool" where
  "canSolve n A = canSolve_outer n (dPAD n) A 0"

section \<open>PgsBoxedLcpSolver: options and memory\<close>

record Option =
  mMaxIteration :: int
  mDeltaXThreshold :: real
  mRelativeDeltaXTolerance :: real
  mEpsilonForDivision :: real
  mRandomizeConstraintOrder :: bool

text \<open>
  The memory \<open>solve\<close> works on: the six caller buffers behind the pointer arguments, the
  solver's caches \<open>mCacheOrder\<close> and \<open>mCacheD\<close>, the engine-global random source
  (\<open>rand_src\<close>, of which \<open>rand_pos\<close> draws have been consumed), and the record of a
  division by zero.
\<close>

record pgs_mem =
  buf_A :: "real list"
  buf_x :: "real list"
  buf_b :: "real list"
  buf_lo :: "real list"
  buf_hi :: "real list"
  buf_findex :: "int list"
  mCacheOrder :: "nat list"
  mCacheD :: "real list"
  rand_src :: "nat \<Rightarrow> nat"
  rand_pos :: nat
  div_by_zero :: bool

text \<open>
  Modelled from the spec: \<open>dRandInt\<close> of dart/external/odelcpsolver is not among the sources.
  The spec's \<open>uniform(0, i)\<close> from an unspecified engine-global source: \<open>dRandInt k\<close> is the
  next draw of the source, reduced below \<open>k\<close>.
\<close>

definition dRandInt :: "nat \<Rightarrow> pgs_mem \<Rightarrow> nat \<times> pgs_mem" where
  "dRandInt k s = (rand_src s (rand_pos s) mod k, s\<lparr>rand_pos := rand_pos s + 1\<rparr>)"

section \<open>LDLT factor and solve\<close>

text \<open>
  Modelled from the spec: \<open>dFactorLDLT\<close> and \<open>dSolveLDLT\<close> of dart/external/odelcpsolver are
  not among the sources. The spec: in-place LDLT factorization of the leading
  \<open>n \<times> n\<close> block, using a length-\<open>n\<close> auxiliary diagonal buffer, then the triangular
  solves; \<open>A\<close> holds the factored form. Row \<open>i\<close> of the unit lower factor replaces the
  strictly-lower part of row \<open>i\<close> of \<open>A\<close>; the buffer \<open>d\<close> receives the reciprocals of the
  diagonal factor. Only the lower triangle of \<open>A\<close> is read.
\<close>

definition dot_prefix :: "real list \<Rightarrow> nat \<Rightarrow> real list \<Rightarrow> nat \<Rightarrow> nat \<Rightarrow> real" where
  "dot_prefix A p B q m = fold (\<lambda>k acc. acc + A ! (p + k) * B ! (q + k)) [0..<m] 0"

definition factor_solve_step :: "nat \<Rightarrow> nat \<Rightarrow> nat \<Rightarrow> real list \<Rightarrow> real list" where
  "factor_solve_step nskip i j A =
     A[nskip * i + j := A ! (nskip * i + j) - dot_prefix A (nskip * i) A (nskip * j) j]"

definition factor_solve_row :: "nat \<Rightarrow> nat \<Rightarrow> real list \<Rightarrow> real list" where
  "factor_solve_row nskip i A = fold (factor_solve_step nskip i) [0..<i] A"

definition factor_scale_step :: "nat \<Rightarrow> nat \<Rightarrow> real list \<Rightarrow> nat \<Rightarrow> real list \<times> real \<Rightarrow> real list \<times> real" where
  "factor_scale_step nskip i d j = (\<lambda>(A, dii).
     let q = A ! (nskip * i + j) * d ! j
     in (A[nskip * i + j := q], dii - A ! (nskip * i + j) * q))"

definition factor_scale_row :: "nat \<Rightarrow> nat \<Rightarrow> real list \<Rightarrow> real list \<times> real \<Rightarrow> real list \<times> real" where
  "factor_scale_row nskip i d = fold (factor_scale_step nskip i d) [0..<i]"

definition factor_row :: "nat \<Rightarrow> nat \<Rightarrow> real list \<times> real list \<Rightarrow> real list \<times> real list" where
  "factor_row nskip i = (\<lambda>(A, d).
     let A1 = factor_solve_row nskip i A;
         (A2, dii) = factor_scale_row nskip i d (A1, A1 ! (nskip * i + i))
     in (A2, d[i := 1 / dii]))"

definition dFactorLDLT :: "real list \<Rightarrow> real list \<Rightarrow> nat \<Rightarrow> nat \<Rightarrow> real list \<times> real list" where
  "dFactorLDLT A d n nskip = fold (factor_row nskip) [0..<n] (A, d)"

definition solveL1_step :: "real list \<Rightarrow> nat \<Rightarrow> nat \<Rightarrow> real list \<Rightarrow> real list" where
  "solveL1_step L nskip i b = b[i := b ! i - dot_prefix L (nskip * i) b 0 i]"

definition dSolveL1 :: "real list \<Rightarrow> real list \<Rightarrow> nat \<Rightarrow> nat \<Rightarrow> real list" where
  "dSolveL1 L b n nskip = fold (solveL1_step L nskip) [0..<n] b"

definition dVectorScale :: "real list \<Rightarrow> real list \<Rightarrow> nat \<Rightarrow> real list" where
  "dVectorScale b d n = fold (\<lambda>i b. b[i := b ! i * d ! i]) [0..<n] b"

definition solveL1T_step :: "real list \<Rightarrow> nat \<Rightarrow> nat \<Rightarrow> nat \<Rightarrow> real list \<Rightarrow> real list" where
  "solveL1T_step L n nskip i b =
     b[i := b ! i - fold (\<lambda>j acc. acc + L ! (nskip * j + i) * b ! j) [i + 1..<n] 0]"

definition dSolveL1T :: "real list \<Rightarrow> real list \<Rightarrow> nat \<Rightarrow> nat \<Rightarrow> real list" where
  "dSolveL1T L b n nskip = fold (solveL1T_step L n nskip) (rev [0..<n]) b"

definition dSolveLDLT :: "real list \<Rightarrow> real list \<Rightarrow> real list \<Rightarrow> nat \<Rightarrow> nat \<Rightarrow> real list" where
  "dSolveLDLT L d b n nskip = dSolveL1T L (dVectorScale (dSolveL1 L b n nskip) d n) n nskip"

section \<open>PgsBoxedLcpSolver::solve, pointer form\<close>

text \<open>
  \<open>new_x = b[i]\<close> followed by the two loops \<open>new_x -= A_ptr[j] * x[j]\<close>, over \<open>j < i\<close> and
  over \<open>i < j < n\<close>.
\<close>

definition row_residual :: "nat \<Rightarrow> nat \<Rightarrow> nat \<Rightarrow> pgs_mem \<Rightarrow> real" where
  "row_residual n nskip i s =
     fold (\<lambda>j new_x. new_x - buf_A s ! (nskip * i + j) * buf_x s ! j)
       ([0..<i] @ [i + 1..<n]) (buf_b s ! i)"

text \<open>The projection of \<open>new_x\<close> for row \<open>i\<close>: the value stored into \<open>x[i]\<close>.\<close>

definition project :: "nat \<Rightarrow> real \<Rightarrow> pgs_mem \<Rightarrow> real" where
  "project i new_x s =
     (if buf_findex s ! i \<ge> 0 then
        (let hi_tmp = buf_hi s ! i * buf_x s ! nat (buf_findex s ! i);
             lo_tmp = - hi_tmp
         in if new_x > hi_tmp then hi_tmp
            else if new_x < lo_tmp then lo_tmp
            else new_x)
      else
        (if new_x > buf_hi s ! i then buf_hi s ! i
         else if new_x < buf_lo s ! i then buf_lo s ! i
         else new_x))"

text \<open>
  One round of the first loop, with the flag \<open>possibleToTerminate\<close>. The division
  \<open>new_x /= A[nskip * i + i]\<close> is by zero when the diagonal is zero and not below
  \<open>mEpsilonForDivision\<close>.
\<close>

definition first_row :: "Option \<Rightarrow> nat \<Rightarrow> nat \<Rightarrow> nat \<Rightarrow> pgs_mem \<times> bool \<Rightarrow> pgs_mem \<times> bool" where
  "first_row opt n nskip i = (\<lambda>(s, possibleToTerminate).
     if buf_A s ! (nskip * i + i) < mEpsilonForDivision opt then
       (s\<lparr>buf_x := (buf_x s)[i := 0]\<rparr>, possibleToTerminate)
     else
       (let s1 = s\<lparr>mCacheOrder := mCacheOrder s @ [i]\<rparr>;
            old_x = buf_x s1 ! i;
            new_x = row_residual n nskip i s1 / buf_A s1 ! (nskip * i + i);
            s2 = s1\<lparr>buf_x := (buf_x s1)[i := project i new_x s1],
                    div_by_zero := div_by_zero s1 \<or> buf_A s1 ! (nskip * i + i) = 0\<rparr>
        in (s2,
            if possibleToTerminate then
              (if \<bar>buf_x s2 ! i - old_x\<bar> > mDeltaXThreshold opt then False else True)
            else False)))"

definition first_sweep :: "Option \<Rightarrow> nat \<Rightarrow> nat \<Rightarrow> pgs_mem \<Rightarrow> pgs_mem \<times> bool" where
  "first_sweep opt n nskip s = fold (first_row opt n nskip) [0..<n] (s, True)"

text \<open>Normalizing: each row of the sweep order, and its \<open>b\<close>, times \<open>1 / A[index, index]\<close>.\<close>

definition normalize_row :: "nat \<Rightarrow> nat \<Rightarrow> nat \<Rightarrow> pgs_mem \<Rightarrow> pgs_mem" where
  "normalize_row n nskip index s =
     (let dummy = 1 / buf_A s ! (nskip * index + index);
          s1 = s\<lparr>buf_b := (buf_b s)[index := buf_b s ! index * dummy],
                 div_by_zero := div_by_zero s \<or> buf_A s ! (nskip * index + index) = 0\<rparr>
      in s1\<lparr>buf_A := fold (\<lambda>j A. A[nskip * index + j := A ! (nskip * index + j) * dummy])
                        [0..<n] (buf_A s1)\<rparr>)"

definition normalize :: "nat \<Rightarrow> nat \<Rightarrow> pgs_mem \<Rightarrow> pgs_mem" where
  "normalize n nskip s = fold (normalize_row n nskip) (mCacheOrder s) s"

text \<open>The shuffle of the sweep order: for \<open>i = 1 .. size - 1\<close>, swap with \<open>dRandInt(i + 1)\<close>.\<close>

definition shuffle_step :: "nat \<Rightarrow> pgs_mem \<Rightarrow> pgs_mem" where
  "shuffle_step i s =
     (let tmp = mCacheOrder s ! i;
          (swapi, s1) = dRandInt (i + 1) s;
          s2 = s1\<lparr>mCacheOrder := (mCacheOrder s1)[i := mCacheOrder s1 ! swapi]\<rparr>
      in s2\<lparr>mCacheOrder := (mCacheOrder s2)[swapi := tmp]\<rparr>)"

definition shuffle :: "pgs_mem \<Rightarrow> pgs_mem" where
  "shuffle s = fold shuffle_step [1..<length (mCacheOrder s)] s"

text \<open>
  One row of a later sweep, on the normalized rows, with the relative test, whose division
  by \<open>x[index]\<close> is guarded by \<open>|x[index]| > mEpsilonForDivision\<close>.
\<close>

definition sweep_row :: "Option \<Rightarrow> nat \<Rightarrow> nat \<Rightarrow> nat \<Rightarrow> pgs_mem \<times> bool \<Rightarrow> pgs_mem \<times> bool" where
  "sweep_row opt n nskip index = (\<lambda>(s, possibleToTerminate).
     let new_x = row_residual n nskip index s;
         old_x = buf_x s ! index;
         s1 = s\<lparr>buf_x := (buf_x s)[index := project index new_x s]\<rparr>;
         divides = (possibleToTerminate \<and> \<bar>buf_x s1 ! index\<bar> > mEpsilonForDivision opt)
     in (s1\<lparr>div_by_zero := div_by_zero s1 \<or> (divides \<and> buf_x s1 ! index = 0)\<rparr>,
         if divides then
           (if \<bar>(buf_x s1 ! index - old_x) / buf_x s1 ! index\<bar> > mRelativeDeltaXTolerance opt
            then False else possibleToTerminate)
         else possibleToTerminate))"

definition sweep :: "Option \<Rightarrow> nat \<Rightarrow> nat \<Rightarrow> pgs_mem \<Rightarrow> pgs_mem \<times> bool" where
  "sweep opt n nskip s = fold (sweep_row opt n nskip) (mCacheOrder s) (s, True)"

text \<open>The loop \<open>for (iter = 1; iter < mMaxIteration; ++iter)\<close>, entered at \<open>iter\<close>.\<close>

function iterate :: "Option \<Rightarrow> nat \<Rightarrow> nat \<Rightarrow> int \<Rightarrow> pgs_mem \<Rightarrow> pgs_mem" where
  "iterate opt n nskip iter s =
     (if iter < mMaxIteration opt then
        (let s1 = (if mRandomizeConstraintOrder opt \<and> and iter 7 = 0 then shuffle s else s);
             (s2, possibleToTerminate) = sweep opt n nskip s1
         in if possibleToTerminate then s2 else iterate opt n nskip (iter + 1) s2)
      else s)"
  by pat_completeness auto
termination
  by (relation "measure (\<lambda>(opt, n, nskip, iter, s). nat (mMaxIteration opt - iter))") auto

declare iterate.simps [simp del]

text \<open>
  \<open>solve(n, A, x, b, nub, lo, hi, findex)\<close> on the memory \<open>s\<close>. The dimension \<open>n\<close> is a
  count and so a natural number; \<open>nub\<close> stays an integer. The \<open>memcpy\<close> of the direct path
  overwrites the first \<open>n\<close> entries of \<open>x\<close> with those of \<open>b\<close>.
\<close>

definition solve :: "Option \<Rightarrow> nat \<Rightarrow> int \<Rightarrow> pgs_mem \<Rightarrow> pgs_mem" where
  "solve opt n nub s =
     (let nskip = dPAD n in
      if nub \<ge> int n then
        (let s1 = s\<lparr>mCacheD := replicate n 0\<rparr>;
             (A', d') = dFactorLDLT (buf_A s1) (mCacheD s1) n nskip;
             s2 = s1\<lparr>buf_A := A', mCacheD := d'\<rparr>;
             s3 = s2\<lparr>buf_b := dSolveLDLT (buf_A s2) (mCacheD s2) (buf_b s2) n nskip\<rparr>
         in s3\<lparr>buf_x := take n (buf_b s3) @ drop n (buf_x s3)\<rparr>)
      else
        (let (s1, possibleToTerminate) = first_sweep opt n nskip (s\<lparr>mCacheOrder := []\<rparr>)
         in if possibleToTerminate then s1
            else iterate opt n nskip 1 (normalize n nskip s1)))"

section \<open>PgsBoxedLcpSolver: matrix form\<close>

text \<open>
  An \<open>Eigen::MatrixXd\<close> is the list of its rows, an \<open>Eigen::VectorXd\<close> a list. The Eigen
  expressions of \<open>sweepForward\<close> follow Eigen's documented meaning:
  \<open>A.triangularView<StrictlyUpper>() * x\<close> multiplies by the part of \<open>A\<close> above the diagonal,
  and \<open>A.triangularView<Lower>().solve(z)\<close> solves the lower-triangular system (diagonal
  included) by forward substitution.
\<close>

definition strictlyUpper_times :: "real list list \<Rightarrow> real list \<Rightarrow> real list" where
  "strictlyUpper_times A x =
     map (\<lambda>i. \<Sum>j\<leftarrow>[i + 1..<length x]. A ! i ! j * x ! j) [0..<length x]"

definition lower_solve_step :: "real list list \<Rightarrow> real list \<Rightarrow> nat \<Rightarrow> real list \<Rightarrow> real list" where
  "lower_solve_step A z i xs = xs @ [(z ! i - (\<Sum>j\<leftarrow>[0..<i]. A ! i ! j * xs ! j)) / A ! i ! i]"

definition lower_solve :: "real list list \<Rightarrow> real list \<Rightarrow> real list" where
  "lower_solve A z = fold (lower_solve_step A z) [0..<length z] []"

text \<open>\<open>mCacheZ = -b; mCacheZ -= A.triangularView<StrictlyUpper>() * x\<close>.\<close>

definition sweep_mCacheZ :: "real list list \<Rightarrow> real list \<Rightarrow> real list \<Rightarrow> real list" where
  "sweep_mCacheZ A x b = map (\<lambda>i. (- b ! i) - strictlyUpper_times A x ! i) [0..<length x]"

definition sweepForward :: "real list list \<Rightarrow> real list \<Rightarrow> real list \<Rightarrow> real list" where
  "sweepForward A x b = lower_solve A (sweep_mCacheZ A x b)"

section \<open>SequentialImpulseConstraintSolver::solveConstrainedGroup\<close>

text \<open>
  The constraint objects and the bodies behind them are external. A constraint is the record
  of its virtual methods, each a function on the state \<open>'w\<close> of the external world (the
  skeletons the constraints share). \<open>ConstraintInfo\<close> carries the slices of the LCP vectors
  a constraint owns: \<open>getInformation\<close> receives the current slices and returns them as it
  leaves them; \<open>getVelocityChange\<close> returns the values it writes through its pointer.
  The numbers a constraint hands back are taken as they are, as reals.
\<close>

record ConstraintInfo =
  ci_x :: "real list"
  ci_lo :: "real list"
  ci_hi :: "real list"
  ci_b :: "real list"
  ci_w :: "real list"
  ci_findex :: "int list"
  invTimeStep :: "real option"

record 'w ConstraintBase =
  getDimension :: nat
  getInformation :: "ConstraintInfo \<Rightarrow> 'w \<Rightarrow> ConstraintInfo \<times> 'w"
  excite :: "'w \<Rightarrow> 'w"
  unexcite :: "'w \<Rightarrow> 'w"
  applyUnitImpulse :: "nat \<Rightarrow> 'w \<Rightarrow> 'w"
  getVelocityChange :: "bool \<Rightarrow> 'w \<Rightarrow> real list \<times> 'w"
  applyImpulse :: "real list \<Rightarrow> 'w \<Rightarrow> 'w"

text \<open>
  The calls made on the constraints of the group, by position in the group and with the
  arguments they receive, and the call of the boxed LCP solver.
\<close>

datatype call =
    GetInformation nat ConstraintInfo
  | Excite nat
  | Unexcite nat
  | ApplyUnitImpulse nat nat
  | GetVelocityChange nat bool
  | SolveLcp
  | ApplyImpulse nat "real list"

text \<open>
  The ways a call does not return: an \<open>assert\<close> of a debug build fails and aborts the
  program, an access falls outside its array, or the solver pointer is null.
\<close>

datatype fault = AssertionFailed | OutOfBounds | NullPointer

text \<open>
  The state of one call: the LCP buffers (with the caches of the boxed solver they are
  handed to), the slack vector \<open>w\<close>, the offsets, the external world, and the calls made so
  far.
\<close>

record 'w group_state =
  gs_mem :: pgs_mem
  gs_w :: "real list"
  gs_offset :: "nat list"
  gs_world :: 'w
  gs_calls :: "call list"

text \<open>A loop whose rounds can fail: the first fault ends it.\<close>

primrec fold_ok :: "('a \<Rightarrow> 's \<Rightarrow> fault + 's) \<Rightarrow> 'a list \<Rightarrow> 's \<Rightarrow> fault + 's" where
  "fold_ok f [] s = Inr s"
| "fold_ok f (a # as) s = (case f a s of Inl e \<Rightarrow> Inl e | Inr t \<Rightarrow> fold_ok f as t)"

text \<open>
  Modelled from the spec: \<open>ConstrainedGroup\<close> is not among the sources. A group is the list
  of its constraints, and \<open>getTotalDimension\<close> the sum of their dimensions.
\<close>

definition getTotalDimension :: "'w ConstraintBase list \<Rightarrow> nat" where
  "getTotalDimension grp = sum_list (map getDimension grp)"

text \<open>Reading and writing \<open>len\<close> entries behind the pointer \<open>base + off\<close>.\<close>

definition slice :: "nat \<Rightarrow> nat \<Rightarrow> 'a list \<Rightarrow> 'a list" where
  "slice off len xs = take len (drop off xs)"

definition write_slice :: "nat \<Rightarrow> nat \<Rightarrow> 'a list \<Rightarrow> 'a list \<Rightarrow> 'a list" where
  "write_slice off len vals xs = fold (\<lambda>j a. a[off + j := vals ! j]) [0..<len] xs"

text \<open>
  The two \<open>isSymmetric\<close> of a debug build: no entry of \<open>A\<close> differs from its mirror image by
  more than \<open>1e-6\<close>, over all rows and columns below \<open>n\<close>, or over those from \<open>row_begin\<close> to
  \<open>row_end\<close>, both included.
\<close>

definition isSymmetric :: "nat \<Rightarrow> real list \<Rightarrow> bool" where
  "isSymmetric n A =
     (let nSkip = dPAD n
      in list_all (\<lambda>i. list_all (\<lambda>j.
           \<not> \<bar>A ! (nSkip * i + j) - A ! (nSkip * j + i)\<bar> > 1 / 10 ^ 6) [0..<n]) [0..<n])"

definition isSymmetric_range :: "nat \<Rightarrow> real list \<Rightarrow> nat \<Rightarrow> nat \<Rightarrow> bool" where
  "isSymmetric_range n A row_begin row_end =
     (let nSkip = dPAD n
      in list_all (\<lambda>i. list_all (\<lambda>j.
           \<not> \<bar>A ! (nSkip * i + j) - A ! (nSkip * j + i)\<bar> > 1 / 10 ^ 6)
             [row_begin..<row_end + 1]) [row_begin..<row_end + 1])"

text \<open>
  The buffers after the allocations and the \<open>memset\<close>s. A fresh allocation has
  indeterminate content: it is whatever \<open>alloc\<close> holds. \<open>A\<close> is zeroed only in a debug
  build, \<open>findex\<close> is set to -1 and \<open>w\<close> to 0; \<open>x\<close>, \<open>b\<close>, \<open>lo\<close> and \<open>hi\<close> are left as
  allocated.
\<close>

definition init_buffers :: "bool \<Rightarrow> nat \<Rightarrow> pgs_mem \<Rightarrow> pgs_mem" where
  "init_buffers debug n alloc =
     alloc\<lparr>buf_A := (if debug then replicate (n * dPAD n) 0 else buf_A alloc),
           buf_findex := replicate n (- 1)\<rparr>"

text \<open>
  One round of the loop that computes the offsets:
  \<open>offset[i] = offset[i - 1] + getDimension(i - 1)\<close>. A debug build asserts before it that
  constraint \<open>i - 1\<close> has a positive dimension. The array is \<open>new std::size_t[n]\<close>: a
  group with more constraints than \<open>n\<close> writes behind its end.
\<close>

definition offset_round :: "bool \<Rightarrow> 'w ConstraintBase list \<Rightarrow> nat \<Rightarrow> nat \<Rightarrow> nat list \<Rightarrow> fault + nat list" where
  "offset_round debug grp n i offset =
     (if debug \<and> \<not> getDimension (grp ! (i - 1)) > 0 then Inl AssertionFailed
      else if \<not> i < n then Inl OutOfBounds
      else Inr (offset[i := offset ! (i - 1) + getDimension (grp ! (i - 1))]))"

text \<open>
  \<open>offset[0] = 0\<close> and the loop, on the fresh array, whose indeterminate content is
  \<open>offset0\<close>.
\<close>

definition compute_offsets :: "bool \<Rightarrow> 'w ConstraintBase list \<Rightarrow> nat \<Rightarrow> nat list \<Rightarrow> fault + nat list" where
  "compute_offsets debug grp n offset0 =
     fold_ok (offset_round debug grp n) [1..<length grp] (offset0[0 := 0])"

definition log_call :: "call \<Rightarrow> 'w group_state \<Rightarrow> 'w group_state" where
  "log_call c s = s\<lparr>gs_calls := gs_calls s @ [c]\<rparr>"

text \<open>
  The struct \<open>constInfo\<close> as it is set for constraint \<open>i\<close>: the slices at \<open>offset[i]\<close>, and
  \<open>invTimeStep = 1.0 / mTimeStep\<close>. When \<open>mTimeStep\<close> is zero the quotient of the code is an
  infinity, which no real stands for: it is \<open>None\<close>.
\<close>

definition constInfo :: "real \<Rightarrow> 'w ConstraintBase list \<Rightarrow> nat \<Rightarrow> 'w group_state \<Rightarrow> ConstraintInfo" where
  "constInfo mTimeStep grp i s =
     (let d = getDimension (grp ! i); off = gs_offset s ! i; m = gs_mem s
      in \<lparr>ci_x = slice off d (buf_x m), ci_lo = slice off d (buf_lo m),
          ci_hi = slice off d (buf_hi m), ci_b = slice off d (buf_b m),
          ci_w = slice off d (gs_w s), ci_findex = slice off d (buf_findex m),
          invTimeStep = (if mTimeStep = 0 then None else Some (1 / mTimeStep))\<rparr>)"

text \<open>\<open>constraint->getInformation(&constInfo)\<close>.\<close>

definition call_getInformation :: "real \<Rightarrow> 'w ConstraintBase list \<Rightarrow> nat \<Rightarrow> 'w group_state \<Rightarrow> 'w group_state" where
  "call_getInformation mTimeStep grp i s =
     (let c = grp ! i; d = getDimension c; off = gs_offset s ! i; m = gs_mem s;
          (info, world) = getInformation c (constInfo mTimeStep grp i s) (gs_world s)
      in log_call (GetInformation i (constInfo mTimeStep grp i s))
           (s\<lparr>gs_mem := m\<lparr>buf_x := write_slice off d (ci_x info) (buf_x m),
                             buf_lo := write_slice off d (ci_lo info) (buf_lo m),
                             buf_hi := write_slice off d (ci_hi info) (buf_hi m),
                             buf_b := write_slice off d (ci_b info) (buf_b m),
                             buf_findex := write_slice off d (ci_findex info) (buf_findex m)\<rparr>,
               gs_w := write_slice off d (ci_w info) (gs_w s),
               gs_world := world\<rparr>))"

text \<open>\<open>group.getConstraint(k)->getVelocityChange(A + index, withBias)\<close>.\<close>

definition call_getVelocityChange :: "'w ConstraintBase list \<Rightarrow> nat \<Rightarrow> nat \<Rightarrow> bool \<Rightarrow> 'w group_state \<Rightarrow> 'w group_state" where
  "call_getVelocityChange grp k index withBias s =
     (let c = grp ! k;
          (vel, world) = getVelocityChange c withBias (gs_world s);
          m = gs_mem s
      in log_call (GetVelocityChange k withBias)
           (s\<lparr>gs_mem := m\<lparr>buf_A := write_slice index (getDimension c) vel (buf_A m)\<rparr>,
               gs_world := world\<rparr>))"

text \<open>Filling the symmetric part of row \<open>offset[i] + j\<close> from the rows of constraint \<open>k\<close>.\<close>

definition mirror_block :: "'w ConstraintBase list \<Rightarrow> nat \<Rightarrow> nat \<Rightarrow> nat \<Rightarrow> nat \<Rightarrow> 'w group_state \<Rightarrow> 'w group_state" where
  "mirror_block grp nSkip i j k s =
     fold (\<lambda>l s.
             let offset = gs_offset s;
                 index1 = nSkip * (offset ! i + j) + offset ! k + l;
                 index2 = nSkip * (offset ! k + l) + offset ! i + j;
                 m = gs_mem s
             in s\<lparr>gs_mem := m\<lparr>buf_A := (buf_A m)[index1 := buf_A m ! index2]\<rparr>\<rparr>)
       [0..<getDimension (grp ! k)] s"

text \<open>One round of the loop over \<open>j\<close>: the impulse test of row \<open>j\<close> of constraint \<open>i\<close>.\<close>

definition impulse_test :: "'w ConstraintBase list \<Rightarrow> nat \<Rightarrow> nat \<Rightarrow> nat \<Rightarrow> 'w group_state \<Rightarrow> 'w group_state" where
  "impulse_test grp nSkip i j s =
     (let c = grp ! i; off = gs_offset s ! i; m = gs_mem s;
          s1 = (if buf_findex m ! (off + j) \<ge> 0
                then s\<lparr>gs_mem := m\<lparr>buf_findex :=
                        (buf_findex m)[off + j := buf_findex m ! (off + j) + int off]\<rparr>\<rparr>
                else s);
          s2 = log_call (ApplyUnitImpulse i j) (s1\<lparr>gs_world := applyUnitImpulse c j (gs_world s1)\<rparr>);
          s3 = call_getVelocityChange grp i (nSkip * (off + j) + off) True s2;
          s4 = fold (\<lambda>k s. call_getVelocityChange grp k (nSkip * (gs_offset s ! i + j) + gs_offset s ! k) False s)
                 [i + 1..<length grp] s3
      in fold (mirror_block grp nSkip i j) [0..<i] s4)"

text \<open>
  One round of the loop over the constraints, up to its assertion: \<open>getInformation\<close>,
  \<open>excite\<close>, and the impulse tests of the rows.
\<close>

definition fill_constraint :: "real \<Rightarrow> 'w ConstraintBase list \<Rightarrow> nat \<Rightarrow> nat \<Rightarrow> 'w group_state \<Rightarrow> 'w group_state" where
  "fill_constraint mTimeStep grp nSkip i s =
     (let c = grp ! i;
          s1 = call_getInformation mTimeStep grp i s;
          s2 = log_call (Excite i) (s1\<lparr>gs_world := excite c (gs_world s1)\<rparr>)
      in fold (impulse_test grp nSkip i) [0..<getDimension c] s2)"

text \<open>
  One round of the loop over the constraints. A debug build asserts
  \<open>isSymmetric(n, A, offset[i], offset[i] + getDimension() - 1)\<close> before \<open>unexcite\<close>; the
  last argument, a \<open>std::size_t\<close>, wraps around when \<open>offset[i] + getDimension()\<close> is zero, and
  the rows compared then leave the array.
\<close>

definition assemble_constraint ::
  "bool \<Rightarrow> real \<Rightarrow> 'w ConstraintBase list \<Rightarrow> nat \<Rightarrow> nat \<Rightarrow> nat \<Rightarrow> 'w group_state \<Rightarrow> fault + 'w group_state" where
  "assemble_constraint debug mTimeStep grp n nSkip i s =
     (let c = grp ! i;
          s3 = fill_constraint mTimeStep grp nSkip i s;
          row_begin = gs_offset s3 ! i
      in if debug \<and> row_begin + getDimension c = 0 then Inl OutOfBounds
         else if debug \<and> \<not> isSymmetric_range n (buf_A (gs_mem s3)) row_begin
                              (row_begin + getDimension c - 1) then Inl AssertionFailed
         else Inr (log_call (Unexcite i) (s3\<lparr>gs_world := unexcite c (gs_world s3)\<rparr>)))"

text \<open>
  The allocations, the offsets, and the first \<open>m\<close> rounds of the loop over the constraints.
\<close>

definition assemble_rounds ::
  "bool \<Rightarrow> real \<Rightarrow> 'w ConstraintBase list \<Rightarrow> pgs_mem \<Rightarrow> nat list \<Rightarrow> 'w \<Rightarrow> nat \<Rightarrow> fault + 'w group_state" where
  "assemble_rounds debug mTimeStep grp alloc offset0 world m =
     (let n = getTotalDimension grp; nSkip = dPAD n
      in case compute_offsets debug grp n offset0 of
           Inl e \<Rightarrow> Inl e
         | Inr offset \<Rightarrow>
             fold_ok (assemble_constraint debug mTimeStep grp n nSkip) [0..<m]
               \<lparr>gs_mem = init_buffers debug n alloc, gs_w = replicate n 0,
                gs_offset = offset, gs_world = world, gs_calls = []\<rparr>)"

text \<open>
  Everything up to the call of the boxed LCP solver: all the rounds, and in a debug build
  the assertion \<open>isSymmetric(n, A)\<close>.
\<close>

definition assemble ::
  "bool \<Rightarrow> real \<Rightarrow> 'w ConstraintBase list \<Rightarrow> pgs_mem \<Rightarrow> nat list \<Rightarrow> 'w \<Rightarrow> fault + 'w group_state" where
  "assemble debug mTimeStep grp alloc offset0 world =
     (case assemble_rounds debug mTimeStep grp alloc offset0 world (length grp) of
        Inl e \<Rightarrow> Inl e
      | Inr s \<Rightarrow>
          if debug \<and> \<not> isSymmetric (getTotalDimension grp) (buf_A (gs_mem s))
          then Inl AssertionFailed else Inr s)"

text \<open>\<open>constraint->applyImpulse(x + offset[i]); constraint->excite()\<close>.\<close>

definition apply_constraint_impulse :: "'w ConstraintBase list \<Rightarrow> nat \<Rightarrow> 'w group_state \<Rightarrow> 'w group_state" where
  "apply_constraint_impulse grp i s =
     (let c = grp ! i;
          lambda = slice (gs_offset s ! i) (getDimension c) (buf_x (gs_mem s));
          s1 = log_call (ApplyImpulse i lambda) (s\<lparr>gs_world := applyImpulse c lambda (gs_world s)\<rparr>)
      in log_call (Excite i) (s1\<lparr>gs_world := excite c (gs_world s1)\<rparr>))"

text \<open>
  \<open>solveConstrainedGroup(group)\<close>. The boxed LCP solver behind the pointer
  \<open>mBoxedLcpSolver\<close> is the parameter \<open>boxedLcpSolver\<close> (\<open>None\<close> the null pointer, which a
  debug build asserts against), called as \<open>solve(n, A, x, b, 0, lo, hi, findex)\<close>. With
  \<open>n = 0\<close> nothing is allocated and no call is made. The result is \<open>Inr\<close> of the final state
  when the call returns, \<open>Inl\<close> of the fault when it does not.
\<close>

definition solveConstrainedGroup ::
  "(nat \<Rightarrow> int \<Rightarrow> pgs_mem \<Rightarrow> pgs_mem) option \<Rightarrow> bool \<Rightarrow> real \<Rightarrow> 'w ConstraintBase list \<Rightarrow>
   pgs_mem \<Rightarrow> nat list \<Rightarrow> 'w \<Rightarrow> fault + 'w group_state" where
  "solveConstrainedGroup boxedLcpSolver debug mTimeStep grp alloc offset0 world =
     (let n = getTotalDimension grp
      in if n = 0 then
           Inr \<lparr>gs_mem = alloc, gs_w = [], gs_offset = offset0, gs_world = world, gs_calls = []\<rparr>
         else
           (case assemble debug mTimeStep grp alloc offset0 world of
              Inl e \<Rightarrow> Inl e
            | Inr s1 \<Rightarrow>
                (case boxedLcpSolver of
                   None \<Rightarrow> Inl (if debug then AssertionFailed else NullPointer)
                 | Some solver \<Rightarrow>
                     Inr (fold (apply_constraint_impulse grp) [0..<length grp]
                            (log_call SolveLcp (s1\<lparr>gs_mem := solver n 0 (gs_mem s1)\<rparr>))))))"

section \<open>Auxiliary predicates for the proofs\<close>

text \<open>A row passes \<open>canSolve\<close>: neither test of the loop body fires on it.\<close>

definition row_ok :: "nat \<Rightarrow> nat \<Rightarrow> real list \<Rightarrow> nat \<Rightarrow> bool" where
  "row_ok n nskip A i \<longleftrightarrow> \<not> A ! (nskip * i + i) < PGS_EPSILON \<and>
     (\<forall>j<n. \<not> \<bar>A ! (nskip * i + j) - A ! (nskip * j + i)\<bar> > PGS_EPSILON)"

text \<open>The memory \<open>t\<close> has the bounds and the friction index of \<open>s\<close>.\<close>

definition same_bounds :: "pgs_mem \<Rightarrow> pgs_mem \<Rightarrow> bool" where
  "same_bounds s t \<longleftrightarrow>
     buf_lo t = buf_lo s \<and> buf_hi t = buf_hi s \<and> buf_findex t = buf_findex s"

text \<open>Row i of the input is degenerate.\<close>

definition degenerate :: "Option \<Rightarrow> nat \<Rightarrow> pgs_mem \<Rightarrow> nat \<Rightarrow> bool" where
  "degenerate opt nskip s i \<longleftrightarrow> buf_A s ! (nskip * i + i) < mEpsilonForDivision opt"



text \<open>Row i is outside the sweep order and its x is zero.\<close>

definition parked :: "nat \<Rightarrow> pgs_mem \<Rightarrow> bool" where
  "parked i s \<longleftrightarrow> i \<notin> set (mCacheOrder s) \<and> buf_x s ! i = 0"

text \<open>Scenario S6 of the spec.\<close>

definition S6 :: "real list \<Rightarrow> real list \<Rightarrow> real list \<Rightarrow> pgs_mem \<Rightarrow> pgs_mem" where
  "S6 x0 lo0 hi0 s = s\<lparr>buf_A := [0, 0, 0, 0, 0, 2, 0, 0], buf_x := x0, buf_b := [7, 4],
     buf_lo := lo0, buf_hi := hi0, buf_findex := [- 1, - 1]\<rparr>"

definition S6_swept :: "Option \<Rightarrow> pgs_mem \<Rightarrow> bool" where
  "S6_swept opt t \<longleftrightarrow> buf_x t = [0, 2] \<and> mCacheOrder t = [1] \<and>
     buf_A t ! 4 = 0 \<and> buf_b t ! 1 = 2 \<and> buf_findex t ! 1 = - 1 \<and>
     buf_lo t ! 1 \<le> 2 \<and> 2 \<le> buf_hi t ! 1"

text \<open>
  Modelled from the spec: the header with the default arguments of \<open>Option\<close> is not among
  the sources. The typical values of the spec's configuration surface.
\<close>

definition typical_option :: Option where
  "typical_option = \<lparr>mMaxIteration = 30, mDeltaXThreshold = 1 / 10 ^ 6,
     mRelativeDeltaXTolerance = 1 / 10 ^ 3, mEpsilonForDivision = 1 / 10 ^ 9,
     mRandomizeConstraintOrder = True\<rparr>"

text \<open>A solver memory around caller buffers, with empty caches.\<close>

definition mem_of :: "real list \<Rightarrow> real list \<Rightarrow> real list \<Rightarrow> real list \<Rightarrow> real list \<Rightarrow> int list \<Rightarrow> pgs_mem" where
  "mem_of A x b lo hi findex = \<lparr>buf_A = A, buf_x = x, buf_b = b, buf_lo = lo, buf_hi = hi,
     buf_findex = findex, mCacheOrder = [], mCacheD = [], rand_src = (\<lambda>k. k), rand_pos = 0,
     div_by_zero = False\<rparr>"




text \<open>The memory the direct path leaves: factored A, the diagonal buffer, and the solution
  in b, copied to the first n entries of x.\<close>

definition direct_result :: "nat \<Rightarrow> pgs_mem \<Rightarrow> pgs_mem" where
  "direct_result n s =
     (let F = dFactorLDLT (buf_A s) (replicate n 0) n (dPAD n);
          b' = dSolveLDLT (fst F) (snd F) (buf_b s) n (dPAD n)
      in s\<lparr>buf_A := fst F, mCacheD := snd F, buf_b := b',
           buf_x := take n b' @ drop n (buf_x s)\<rparr>)"

text \<open>
  Row i of \<open>A0\<close>, on and below the diagonal, is row i of the product of the unit lower
  factor stored in \<open>L\<close>, the diagonal with reciprocals \<open>d\<close>, and the transposed factor.
\<close>

definition ldl_row :: "nat \<Rightarrow> real list \<Rightarrow> real list \<Rightarrow> real list \<Rightarrow> nat \<Rightarrow> bool" where
  "ldl_row nskip A0 L d i \<longleftrightarrow>
     (\<forall>j<i. A0 ! (nskip * i + j) =
        L ! (nskip * i + j) / d ! j + (\<Sum>k<j. L ! (nskip * i + k) / d ! k * L ! (nskip * j + k))) \<and>
     A0 ! (nskip * i + i) = 1 / d ! i + (\<Sum>k<i. L ! (nskip * i + k) / d ! k * L ! (nskip * i + k))"

text \<open>The calls that concern constraint c: its own excite, unexcite, unit-impulse probes and
  final impulse, and the call of the solver.\<close>

definition about :: "nat \<Rightarrow> call \<Rightarrow> bool" where
  "about c e =
     (case e of
        Excite k \<Rightarrow> k = c
      | Unexcite k \<Rightarrow> k = c
      | ApplyUnitImpulse k j \<Rightarrow> k = c
      | ApplyImpulse k lambda \<Rightarrow> k = c
      | SolveLcp \<Rightarrow> True
      | _ \<Rightarrow> False)"

abbreviation trace :: "nat \<Rightarrow> 'w group_state \<Rightarrow> call list" where
  "trace c s \<equiv> filter (about c) (gs_calls s)"

text \<open>The effect on the world of a call of the log, made on the constraints of \<open>grp\<close>.\<close>

definition replay :: "'w ConstraintBase list \<Rightarrow> call \<Rightarrow> 'w \<Rightarrow> 'w" where
  "replay grp e world =
     (case e of
        GetInformation i info \<Rightarrow> snd (getInformation (grp ! i) info world)
      | Excite i \<Rightarrow> excite (grp ! i) world
      | Unexcite i \<Rightarrow> unexcite (grp ! i) world
      | ApplyUnitImpulse i j \<Rightarrow> applyUnitImpulse (grp ! i) j world
      | GetVelocityChange k withBias \<Rightarrow> snd (getVelocityChange (grp ! k) withBias world)
      | SolveLcp \<Rightarrow> world
      | ApplyImpulse i lambda \<Rightarrow> applyImpulse (grp ! i) lambda world)"

text \<open>The world of \<open>s\<close> is what the calls logged in \<open>s\<close> make of \<open>world\<close>.\<close>

definition replayed :: "'w ConstraintBase list \<Rightarrow> 'w \<Rightarrow> 'w group_state \<Rightarrow> bool" where
  "replayed grp world s \<longleftrightarrow> gs_world s = fold (replay grp) (gs_calls s) world"

text \<open>The offset of constraint i: the sum of the dimensions before it.\<close>

definition offset_of :: "'w ConstraintBase list \<Rightarrow> nat \<Rightarrow> nat" where
  "offset_of grp i = sum_list (map getDimension (take i grp))"

text \<open>The round of constraint \<open>i\<close> when its assertion holds or is compiled out.\<close>

definition assemble_round :: "real \<Rightarrow> 'w ConstraintBase list \<Rightarrow> nat \<Rightarrow> nat \<Rightarrow> 'w group_state \<Rightarrow> 'w group_state" where
  "assemble_round mTimeStep grp nSkip i s =
     (let s3 = fill_constraint mTimeStep grp nSkip i s
      in log_call (Unexcite i) (s3\<lparr>gs_world := unexcite (grp ! i) (gs_world s3)\<rparr>))"

text \<open>The state the loop over the constraints starts from, with the offsets computed.\<close>

definition assemble_start :: "bool \<Rightarrow> 'w ConstraintBase list \<Rightarrow> pgs_mem \<Rightarrow> nat list \<Rightarrow> 'w \<Rightarrow> 'w group_state" where
  "assemble_start debug grp alloc offset world =
     \<lparr>gs_mem = init_buffers debug (getTotalDimension grp) alloc,
      gs_w = replicate (getTotalDimension grp) 0,
      gs_offset = offset, gs_world = world, gs_calls = []\<rparr>"

text \<open>
  A constraint for concrete runs, at position \<open>p\<close> of its group, over a world that holds
  the excitation mark of every position: \<open>excite\<close> sets the mark of \<open>p\<close> and \<open>unexcite\<close> clears
  it. Its \<open>getInformation\<close> fills \<open>b\<close>, \<open>lo\<close> and \<open>hi\<close>, and stores \<open>r\<close> in every entry of its
  \<open>x\<close> slice when \<open>v = Some r\<close>, nothing when \<open>v = None\<close>.
\<close>

definition sample_constraint :: "nat \<Rightarrow> nat \<Rightarrow> real option \<Rightarrow> (nat \<Rightarrow> bool) ConstraintBase" where
  "sample_constraint p d v =
     \<lparr>getDimension = d,
      getInformation = (\<lambda>info world.
        (info\<lparr>ci_x := (case v of None \<Rightarrow> ci_x info | Some r \<Rightarrow> replicate d r),
              ci_lo := replicate d (- 1), ci_hi := replicate d 1, ci_b := replicate d 1\<rparr>, world)),
      excite = (\<lambda>world. world(p := True)),
      unexcite = (\<lambda>world. world(p := False)),
      applyUnitImpulse = (\<lambda>j world. world),
      getVelocityChange = (\<lambda>withBias world. (replicate d 1, world)),
      applyImpulse = (\<lambda>lambda world. world)\<rparr>"

section \<open>Properties of canSolve\<close>

lemma canSolve_inner_iff:
  "canSolve_inner n nskip A i j \<longleftrightarrow>
     (\<forall>j'. j \<le> j' \<and> j' < n \<longrightarrow> \<not> \<bar>A ! (nskip * i + j') - A ! (nskip * j' + i)\<bar> > PGS_EPSILON)"
proof (induction n nskip A i j rule: canSolve_inner.induct)
  case (1 n nskip A i j)
  show ?case
  proof (cases "j < n")
    case False
    then show ?thesis by (subst canSolve_inner.simps) auto
  next
    case True
    show ?thesis
    proof (cases "\<bar>A ! (nskip * i + j) - A ! (nskip * j + i)\<bar> > PGS_EPSILON")
      case bad: True
      have "canSolve_inner n nskip A i j = False"
        using True bad by (subst canSolve_inner.simps) simp
      moreover have "\<exists>j'. j \<le> j' \<and> j' < n \<and> \<bar>A ! (nskip * i + j') - A ! (nskip * j' + i)\<bar> > PGS_EPSILON"
        using True bad by blast
      ultimately show ?thesis by blast
    next
      case ok: False
      have step: "canSolve_inner n nskip A i j = canSolve_inner n nskip A i (j + 1)"
        using True ok by (subst canSolve_inner.simps) simp
      have ih: "canSolve_inner n nskip A i (j + 1) \<longleftrightarrow>
          (\<forall>j'. j + 1 \<le> j' \<and> j' < n \<longrightarrow> \<not> \<bar>A ! (nskip * i + j') - A ! (nskip * j' + i)\<bar> > PGS_EPSILON)"
        using "1.IH"[OF True ok] .
      have "(\<forall>j'. j \<le> j' \<and> j' < n \<longrightarrow> \<not> \<bar>A ! (nskip * i + j') - A ! (nskip * j' + i)\<bar> > PGS_EPSILON)
        \<longleftrightarrow> (\<forall>j'. j + 1 \<le> j' \<and> j' < n \<longrightarrow> \<not> \<bar>A ! (nskip * i + j') - A ! (nskip * j' + i)\<bar> > PGS_EPSILON)"
      proof -
        have "\<And>j'. j \<le> j' \<longleftrightarrow> j' = j \<or> j + 1 \<le> j'" by auto
        then show ?thesis using ok by auto
      qed
      then show ?thesis using step ih by simp
    qed
  qed
qed

lemma canSolve_outer_iff:
  "canSolve_outer n nskip A i \<longleftrightarrow> (\<forall>i'. i \<le> i' \<and> i' < n \<longrightarrow> row_ok n nskip A i')"
proof (induction n nskip A i rule: canSolve_outer.induct)
  case (1 n nskip A i)
  show ?case
  proof (cases "i < n")
    case False
    then show ?thesis by (subst canSolve_outer.simps) auto
  next
    case True
    have inner: "canSolve_inner n nskip A i 0 \<longleftrightarrow>
        (\<forall>j<n. \<not> \<bar>A ! (nskip * i + j) - A ! (nskip * j + i)\<bar> > PGS_EPSILON)"
      by (simp add: canSolve_inner_iff)
    show ?thesis
    proof (cases "row_ok n nskip A i")
      case bad: False
      have "canSolve_outer n nskip A i = False"
        using True bad inner by (subst canSolve_outer.simps) (auto simp: row_ok_def)
      then show ?thesis using True bad by blast
    next
      case ok: True
      have d: "\<not> A ! (nskip * i + i) < PGS_EPSILON" and c: "\<not> \<not> canSolve_inner n nskip A i 0"
        using ok inner by (auto simp: row_ok_def)
      have step: "canSolve_outer n nskip A i = canSolve_outer n nskip A (i + 1)"
        using True d c by (subst canSolve_outer.simps) simp
      have ih: "canSolve_outer n nskip A (i + 1) \<longleftrightarrow>
          (\<forall>i'. i + 1 \<le> i' \<and> i' < n \<longrightarrow> row_ok n nskip A i')"
        using "1.IH"[OF True d c] .
      have "(\<forall>i'. i \<le> i' \<and> i' < n \<longrightarrow> row_ok n nskip A i')
        \<longleftrightarrow> (\<forall>i'. i + 1 \<le> i' \<and> i' < n \<longrightarrow> row_ok n nskip A i')"
      proof -
        have "\<And>i'. i \<le> i' \<longleftrightarrow> i' = i \<or> i + 1 \<le> i'" by auto
        then show ?thesis using ok by auto
      qed
      then show ?thesis using step ih by simp
    qed
  qed
qed

text \<open>
  C7 (amended). \<open>canSolve(n, A)\<close> returns false if and only if some diagonal entry
  satisfies \<open>A[i,i] < PGS_EPSILON\<close> or some pair satisfies
  \<open>|A[i,j] - A[j,i]| > PGS_EPSILON\<close>, for \<open>0 \<le> i, j < n\<close> over the padded-stride
  matrix, and otherwise true; the tolerance is \<open>PGS_EPSILON = 10e-9 = 1e-8\<close>.
\<close>

theorem canSolve_false_iff:
  "PGS_EPSILON = 1 / 10 ^ 8 \<and>
   (canSolve n A = False \<longleftrightarrow>
     (\<exists>i<n. A ! (dPAD n * i + i) < PGS_EPSILON) \<or>
     (\<exists>i<n. \<exists>j<n. \<bar>A ! (dPAD n * i + j) - A ! (dPAD n * j + i)\<bar> > PGS_EPSILON))"
proof -
  have "canSolve n A \<longleftrightarrow> (\<forall>i<n. row_ok n (dPAD n) A i)"
    by (simp add: canSolve_def canSolve_outer_iff)
  then have "canSolve n A = False \<longleftrightarrow>
     (\<exists>i<n. A ! (dPAD n * i + i) < PGS_EPSILON) \<or>
     (\<exists>i<n. \<exists>j<n. \<bar>A ! (dPAD n * i + j) - A ! (dPAD n * j + i)\<bar> > PGS_EPSILON)"
    unfolding row_ok_def by blast
  moreover have "PGS_EPSILON = 1 / 10 ^ 8"
    by (simp add: PGS_EPSILON_def)
  ultimately show ?thesis by blast
qed

theorem canSolve_false_iff_witness:
  "canSolve 2 [1, 2, 0, 0, 3, 1, 0, 0] = False \<and>
   \<bar>[1, 2, 0, 0, 3, 1, 0, 0] ! (dPAD 2 * 0 + 1) - [1, 2, 0, 0, 3, 1, 0, 0] ! (dPAD 2 * 1 + 0)\<bar> > PGS_EPSILON"
proof -
  have e: "\<bar>[1, 2, 0, 0, 3, 1, 0, 0] ! (dPAD 2 * 0 + 1) - [1, 2, 0, 0, 3, 1, 0, 0] ! (dPAD 2 * 1 + 0)\<bar> > PGS_EPSILON"
    by (simp add: dPAD_def PGS_EPSILON_def)
  then have "\<exists>i<2. \<exists>j<2. \<bar>[1, 2, 0, 0, 3, 1, 0, 0] ! (dPAD 2 * i + j) - [1, 2, 0, 0, 3, 1, 0, 0] ! (dPAD 2 * j + i)\<bar> > PGS_EPSILON"
    by (intro exI[of _ 0] exI[of _ 1] conjI) simp_all
  then have "canSolve 2 [1, 2, 0, 0, 3, 1, 0, 0] = False"
    using canSolve_false_iff[of 2 "[1, 2, 0, 0, 3, 1, 0, 0]"] by blast
  then show ?thesis using e by blast
qed

text \<open>
  With the tolerance \<open>1e-9\<close> the equivalence fails: on the \<open>1 \<times> 1\<close> matrix with
  \<open>A[0,0] = 5e-9\<close>, \<open>canSolve\<close> returns false although \<open>A[0,0] \<ge> 1e-9\<close> and the matrix
  is symmetric.
\<close>

theorem canSolve_eps_counterexample:
  "canSolve 1 [5 / 10 ^ 9, 0, 0, 0] = False \<and>
   \<not> [5 / 10 ^ 9, 0, 0, 0] ! (dPAD 1 * 0 + 0) < (1 / 10 ^ 9 :: real) \<and>
   \<not> \<bar>[5 / 10 ^ 9, 0, 0, 0] ! (dPAD 1 * 0 + 0) - [5 / 10 ^ 9, 0, 0, 0] ! (dPAD 1 * 0 + 0)\<bar> > (1 / 10 ^ 9 :: real)"
  by (simp add: canSolve_def dPAD_def PGS_EPSILON_def canSolve_outer.simps canSolve_inner.simps)

section \<open>Effects of the steps of the pointer-form solve\<close>

lemma fold_preserves:
  assumes "P s" and "\<And>a t. a \<in> set xs \<Longrightarrow> P t \<Longrightarrow> P (f a t)"
  shows "P (fold f xs s)"
  using assms by (induction xs arbitrary: s) auto

lemma first_row_x:
  "buf_x (fst (first_row opt n nskip i (s, t))) =
     (buf_x s)[i := (if buf_A s ! (nskip * i + i) < mEpsilonForDivision opt then 0
        else project i (row_residual n nskip i s / buf_A s ! (nskip * i + i)) s)]"
  by (simp add: first_row_def Let_def project_def row_residual_def)

lemma first_row_frame:
  "buf_A (fst (first_row opt n nskip i p)) = buf_A (fst p)"
  "buf_b (fst (first_row opt n nskip i p)) = buf_b (fst p)"
  "buf_lo (fst (first_row opt n nskip i p)) = buf_lo (fst p)"
  "buf_hi (fst (first_row opt n nskip i p)) = buf_hi (fst p)"
  "buf_findex (fst (first_row opt n nskip i p)) = buf_findex (fst p)"
  "mCacheD (fst (first_row opt n nskip i p)) = mCacheD (fst p)"
  by (cases p; simp add: first_row_def Let_def)+

lemma first_row_order:
  "mCacheOrder (fst (first_row opt n nskip i (s, t))) =
     (if buf_A s ! (nskip * i + i) < mEpsilonForDivision opt then mCacheOrder s
      else mCacheOrder s @ [i])"
  by (simp add: first_row_def Let_def)

lemma sweep_row_x:
  "buf_x (fst (sweep_row opt n nskip i (s, t))) =
     (buf_x s)[i := project i (row_residual n nskip i s) s]"
  by (simp add: sweep_row_def Let_def)

lemma sweep_row_frame:
  "buf_A (fst (sweep_row opt n nskip i p)) = buf_A (fst p)"
  "buf_b (fst (sweep_row opt n nskip i p)) = buf_b (fst p)"
  "buf_lo (fst (sweep_row opt n nskip i p)) = buf_lo (fst p)"
  "buf_hi (fst (sweep_row opt n nskip i p)) = buf_hi (fst p)"
  "buf_findex (fst (sweep_row opt n nskip i p)) = buf_findex (fst p)"
  "mCacheD (fst (sweep_row opt n nskip i p)) = mCacheD (fst p)"
  "mCacheOrder (fst (sweep_row opt n nskip i p)) = mCacheOrder (fst p)"
  by (cases p; simp add: sweep_row_def Let_def)+

lemma normalize_row_frame:
  "buf_x (normalize_row n nskip i s) = buf_x s"
  "buf_lo (normalize_row n nskip i s) = buf_lo s"
  "buf_hi (normalize_row n nskip i s) = buf_hi s"
  "buf_findex (normalize_row n nskip i s) = buf_findex s"
  "mCacheOrder (normalize_row n nskip i s) = mCacheOrder s"
  by (simp_all add: normalize_row_def Let_def)

lemma shuffle_step_frame:
  "buf_x (shuffle_step i s) = buf_x s"
  "buf_A (shuffle_step i s) = buf_A s"
  "buf_b (shuffle_step i s) = buf_b s"
  "buf_lo (shuffle_step i s) = buf_lo s"
  "buf_hi (shuffle_step i s) = buf_hi s"
  "buf_findex (shuffle_step i s) = buf_findex s"
  by (simp_all add: shuffle_step_def dRandInt_def Let_def)

lemma shuffle_step_order:
  "mCacheOrder (shuffle_step i s) =
     (let j = rand_src s (rand_pos s) mod (i + 1)
      in ((mCacheOrder s)[i := mCacheOrder s ! j])[j := mCacheOrder s ! i])"
  by (simp add: shuffle_step_def dRandInt_def Let_def)

section \<open>Frame: the bounds and the friction index are only read\<close>

lemma iterate_invariant_aux:
  "(\<And>t. mRandomizeConstraintOrder opt \<Longrightarrow> P t \<Longrightarrow> P (shuffle t)) \<Longrightarrow>
   (\<And>t. P t \<Longrightarrow> P (fst (sweep opt n nskip t))) \<Longrightarrow>
   P s \<Longrightarrow> P (iterate opt n nskip iter s)"
proof (induction opt n nskip iter s rule: iterate.induct)
  case (1 opt n nskip iter s)
  note sh = "1.prems"(1) and sw = "1.prems"(2)
  show ?case
  proof (cases "iter < mMaxIteration opt")
    case False
    then show ?thesis using "1.prems"(3) by (subst iterate.simps) simp
  next
    case True
    define s1 where "s1 = (if mRandomizeConstraintOrder opt \<and> and iter 7 = 0 then shuffle s else s)"
    obtain s2 t where sweep_eq: "sweep opt n nskip s1 = (s2, t)" by (cases "sweep opt n nskip s1")
    have p1: "P s1"
      using "1.prems"(3) sh by (simp add: s1_def)
    have p2: "P s2"
      using sw[OF p1] sweep_eq by simp
    show ?thesis
    proof (cases t)
      case True
      have "iterate opt n nskip iter s = s2"
        using \<open>iter < mMaxIteration opt\<close> sweep_eq True
        by (subst iterate.simps) (simp add: s1_def[symmetric])
      then show ?thesis using p2 by simp
    next
      case False
      have eq: "iterate opt n nskip iter s = iterate opt n nskip (iter + 1) s2"
        using \<open>iter < mMaxIteration opt\<close> sweep_eq False
        by (subst iterate.simps) (simp add: s1_def[symmetric])
      have "P (iterate opt n nskip (iter + 1) s2)"
        using "1.IH"[OF \<open>iter < mMaxIteration opt\<close> s1_def refl sweep_eq[symmetric] False sh sw p2] .
      then show ?thesis using eq by simp
    qed
  qed
qed

lemma iterate_invariant:
  assumes init: "P s"
    and sh: "\<And>t. mRandomizeConstraintOrder opt \<Longrightarrow> P t \<Longrightarrow> P (shuffle t)"
    and sw: "\<And>t. P t \<Longrightarrow> P (fst (sweep opt n nskip t))"
  shows "P (iterate opt n nskip iter s)"
  using iterate_invariant_aux[of opt P n nskip s iter] assms by blast

lemma solve_iterative:
  assumes "\<not> nub \<ge> int n"
  shows "solve opt n nub s =
     (if snd (first_sweep opt n (dPAD n) (s\<lparr>mCacheOrder := []\<rparr>))
      then fst (first_sweep opt n (dPAD n) (s\<lparr>mCacheOrder := []\<rparr>))
      else iterate opt n (dPAD n) 1
             (normalize n (dPAD n) (fst (first_sweep opt n (dPAD n) (s\<lparr>mCacheOrder := []\<rparr>)))))"
  using assms by (simp add: solve_def Let_def split: prod.splits)

lemma solve_invariant:
  assumes nub: "\<not> nub \<ge> int n"
    and first: "P (fst (first_sweep opt n (dPAD n) (s\<lparr>mCacheOrder := []\<rparr>)))"
    and norm: "\<And>t. P t \<Longrightarrow> P (normalize n (dPAD n) t)"
    and sh: "\<And>t. mRandomizeConstraintOrder opt \<Longrightarrow> P t \<Longrightarrow> P (shuffle t)"
    and sw: "\<And>t. P t \<Longrightarrow> P (fst (sweep opt n (dPAD n) t))"
  shows "P (solve opt n nub s)"
proof -
  have "P (iterate opt n (dPAD n) 1
             (normalize n (dPAD n) (fst (first_sweep opt n (dPAD n) (s\<lparr>mCacheOrder := []\<rparr>)))))"
    by (rule iterate_invariant[OF norm[OF first] sh sw])
  then show ?thesis
    using first by (simp add: solve_iterative[OF nub])
qed

lemma first_sweep_bounds:
  "same_bounds s t \<Longrightarrow> same_bounds s (fst (first_sweep opt n nskip t))"
  unfolding first_sweep_def
  by (rule fold_preserves[where P = "\<lambda>p. same_bounds s (fst p)"])
     (simp_all add: same_bounds_def first_row_frame)

lemma normalize_bounds: "same_bounds s t \<Longrightarrow> same_bounds s (normalize n nskip t)"
  unfolding normalize_def
  by (rule fold_preserves[where P = "\<lambda>t. same_bounds s t"])
     (simp_all add: same_bounds_def normalize_row_frame)

lemma shuffle_bounds: "same_bounds s t \<Longrightarrow> same_bounds s (shuffle t)"
  unfolding shuffle_def
  by (rule fold_preserves[where P = "\<lambda>t. same_bounds s t"])
     (simp_all add: same_bounds_def shuffle_step_frame)

lemma sweep_bounds: "same_bounds s t \<Longrightarrow> same_bounds s (fst (sweep opt n nskip t))"
  unfolding sweep_def
  by (rule fold_preserves[where P = "\<lambda>p. same_bounds s (fst p)"])
     (simp_all add: same_bounds_def sweep_row_frame)

lemma solve_same_bounds: "same_bounds s (solve opt n nub s)"
proof (cases "nub \<ge> int n")
  case True
  then show ?thesis
    by (simp add: solve_def Let_def same_bounds_def split: prod.splits)
next
  case False
  show ?thesis
    by (rule solve_invariant[OF False])
       (simp_all add: first_sweep_bounds normalize_bounds shuffle_bounds sweep_bounds
          same_bounds_def[of s "s\<lparr>mCacheOrder := []\<rparr>"])
qed

text \<open>
  C10. For every call of the pointer-form \<open>solve\<close>, on either path, the arrays \<open>lo\<close>, \<open>hi\<close>
  and \<open>findex\<close> are unchanged on return (the caller's buffers being distinct objects).
\<close>

theorem solve_preserves_bounds:
  "buf_lo (solve opt n nub s) = buf_lo s \<and>
   buf_hi (solve opt n nub s) = buf_hi s \<and>
   buf_findex (solve opt n nub s) = buf_findex s"
  using solve_same_bounds[of s opt n nub] by (simp add: same_bounds_def)

section \<open>The first sweep and the sweep order\<close>

lemma upt_fold_Suc: "fold f [0..<Suc m] s = f m (fold f [0..<m] s)"
  by simp

lemma first_sweep_prefix_A:
  "buf_A (fst (fold (first_row opt n nskip) [0..<m] (s, t))) = buf_A s"
  by (induction m) (simp_all add: first_row_frame)

lemma first_sweep_prefix_length:
  "length (buf_x (fst (fold (first_row opt n nskip) [0..<m] (s, t)))) = length (buf_x s)"
proof (induction m)
  case 0
  show ?case by simp
next
  case (Suc m)
  obtain s' t' where e: "fold (first_row opt n nskip) [0..<m] (s, t) = (s', t')"
    by (cases "fold (first_row opt n nskip) [0..<m] (s, t)")
  show ?case using Suc e by (simp add: first_row_x)
qed

lemma first_sweep_prefix_order:
  "mCacheOrder (fst (fold (first_row opt n nskip) [0..<m] (s, t))) =
     mCacheOrder s @ filter (\<lambda>i. \<not> degenerate opt nskip s i) [0..<m]"
proof (induction m)
  case 0
  show ?case by simp
next
  case (Suc m)
  obtain s' t' where e: "fold (first_row opt n nskip) [0..<m] (s, t) = (s', t')"
    by (cases "fold (first_row opt n nskip) [0..<m] (s, t)")
  have A: "buf_A s' = buf_A s"
    using first_sweep_prefix_A[of opt n nskip m s t] e by simp
  show ?case using Suc e A by (simp add: first_row_order degenerate_def)
qed

lemma first_sweep_prefix_untouched:
  "m \<le> i \<Longrightarrow> buf_x (fst (fold (first_row opt n nskip) [0..<m] (s, t))) ! i = buf_x s ! i"
proof (induction m)
  case 0
  show ?case by simp
next
  case (Suc m)
  obtain s' t' where e: "fold (first_row opt n nskip) [0..<m] (s, t) = (s', t')"
    by (cases "fold (first_row opt n nskip) [0..<m] (s, t)")
  show ?case using Suc e by (simp add: first_row_x)
qed

lemma first_sweep_prefix_zero:
  "i < m \<Longrightarrow> i < length (buf_x s) \<Longrightarrow> degenerate opt nskip s i \<Longrightarrow>
   buf_x (fst (fold (first_row opt n nskip) [0..<m] (s, t))) ! i = 0"
proof (induction m)
  case 0
  then show ?case by simp
next
  case (Suc m)
  obtain s' t' where e: "fold (first_row opt n nskip) [0..<m] (s, t) = (s', t')"
    by (cases "fold (first_row opt n nskip) [0..<m] (s, t)")
  have A: "buf_A s' = buf_A s"
    using first_sweep_prefix_A[of opt n nskip m s t] e by simp
  have L: "length (buf_x s') = length (buf_x s)"
    using first_sweep_prefix_length[of opt n nskip m s t] e by simp
  show ?case
  proof (cases "i = m")
    case True
    then show ?thesis using Suc.prems e A L by (simp add: first_row_x degenerate_def)
  next
    case False
    then have "i < m" using Suc.prems by simp
    then show ?thesis using Suc e False by (simp add: first_row_x)
  qed
qed

lemma normalize_frame:
  "buf_x (normalize n nskip s) = buf_x s \<and> mCacheOrder (normalize n nskip s) = mCacheOrder s"
  unfolding normalize_def
  by (rule fold_preserves[where P = "\<lambda>t. buf_x t = buf_x s \<and> mCacheOrder t = mCacheOrder s"])
     (simp_all add: normalize_row_frame)

lemma shuffle_step_set:
  assumes "i < length (mCacheOrder s)"
  shows "set (mCacheOrder (shuffle_step i s)) = set (mCacheOrder s) \<and>
         length (mCacheOrder (shuffle_step i s)) = length (mCacheOrder s)"
proof -
  have "rand_src s (rand_pos s) mod (i + 1) < length (mCacheOrder s)"
    using assms mod_less_divisor[of "i + 1" "rand_src s (rand_pos s)"] by linarith
  then show ?thesis
    using assms by (simp add: shuffle_step_order Let_def set_swap)
qed

lemma shuffle_set:
  "set (mCacheOrder (shuffle s)) = set (mCacheOrder s)"
proof -
  have "set (mCacheOrder (fold shuffle_step [1..<length (mCacheOrder s)] s)) = set (mCacheOrder s) \<and>
        length (mCacheOrder (fold shuffle_step [1..<length (mCacheOrder s)] s)) = length (mCacheOrder s)"
    by (rule fold_preserves[where P = "\<lambda>t. set (mCacheOrder t) = set (mCacheOrder s) \<and>
          length (mCacheOrder t) = length (mCacheOrder s)"])
       (auto simp: shuffle_step_set)
  then show ?thesis by (simp add: shuffle_def)
qed

lemma shuffle_x: "buf_x (shuffle s) = buf_x s"
  unfolding shuffle_def
  by (rule fold_preserves[where P = "\<lambda>t. buf_x t = buf_x s"]) (simp_all add: shuffle_step_frame)

lemma sweep_rows_order:
  "mCacheOrder (fst (fold (sweep_row opt n nskip) xs p)) = mCacheOrder (fst p)"
  by (rule fold_preserves[where P = "\<lambda>q. mCacheOrder (fst q) = mCacheOrder (fst p)"])
     (simp_all add: sweep_row_frame)


lemma sweep_rows_untouched:
  assumes "i \<notin> set xs"
  shows "buf_x (fst (fold (sweep_row opt n nskip) xs p)) ! i = buf_x (fst p) ! i"
proof (rule fold_preserves[where P = "\<lambda>q. buf_x (fst q) ! i = buf_x (fst p) ! i"])
  show "buf_x (fst p) ! i = buf_x (fst p) ! i" by simp
next
  fix a and q :: "pgs_mem \<times> bool" assume "a \<in> set xs" and "buf_x (fst q) ! i = buf_x (fst p) ! i"
  moreover from this assms have "a \<noteq> i" by blast
  ultimately show "buf_x (fst (sweep_row opt n nskip a q)) ! i = buf_x (fst p) ! i"
    by (cases q) (simp add: sweep_row_x)
qed

lemma parked_solve:
  assumes nub: "\<not> nub \<ge> int n" and len: "length (buf_x s) = n" and i: "i < n"
    and deg: "degenerate opt (dPAD n) s i"
  shows "parked i (solve opt n nub s)"
proof (rule solve_invariant[OF nub])
  let ?s0 = "s\<lparr>mCacheOrder := []\<rparr>"
  have d0: "degenerate opt (dPAD n) ?s0 i" using deg by (simp add: degenerate_def)
  have "buf_x (fst (first_sweep opt n (dPAD n) ?s0)) ! i = 0"
    unfolding first_sweep_def
    using first_sweep_prefix_zero[of i n ?s0 opt "dPAD n" n True] i len d0 by simp
  moreover have "i \<notin> set (mCacheOrder (fst (first_sweep opt n (dPAD n) ?s0)))"
    unfolding first_sweep_def using d0 by (simp add: first_sweep_prefix_order)
  ultimately show "parked i (fst (first_sweep opt n (dPAD n) ?s0))"
    by (simp add: parked_def)
next
  fix t assume "parked i t"
  then show "parked i (normalize n (dPAD n) t)"
    by (simp add: parked_def normalize_frame)
next
  fix t assume "parked i t"
  then show "parked i (shuffle t)"
    by (simp add: parked_def shuffle_set shuffle_x)
next
  fix t assume p: "parked i t"
  then have "i \<notin> set (mCacheOrder t)" by (simp add: parked_def)
  then have "buf_x (fst (sweep opt n (dPAD n) t)) ! i = buf_x t ! i"
    unfolding sweep_def using sweep_rows_untouched[of i "mCacheOrder t" opt n "dPAD n" "(t, True)"] by simp
  moreover have "mCacheOrder (fst (sweep opt n (dPAD n) t)) = mCacheOrder t"
    unfolding sweep_def using sweep_rows_order[of opt n "dPAD n" "mCacheOrder t" "(t, True)"] by simp
  ultimately show "parked i (fst (sweep opt n (dPAD n) t))"
    using p by (simp add: parked_def)
qed

lemma upt_2: "[0..<2] = [0, 1]"
  by (simp add: upt_rec)

lemma S6_first:
  assumes "0 < mEpsilonForDivision opt" "mEpsilonForDivision opt \<le> 2"
    and "length x0 = 2" "lo0 ! 1 \<le> 2" "2 \<le> hi0 ! 1"
  shows "buf_x (fst (first_sweep opt 2 4 ((S6 x0 lo0 hi0 s)\<lparr>mCacheOrder := []\<rparr>))) = [0, 2]"
    and "mCacheOrder (fst (first_sweep opt 2 4 ((S6 x0 lo0 hi0 s)\<lparr>mCacheOrder := []\<rparr>))) = [1]"
    and "S6_swept opt (normalize 2 4 (fst (first_sweep opt 2 4 ((S6 x0 lo0 hi0 s)\<lparr>mCacheOrder := []\<rparr>))))"
proof -
  obtain a b where x0: "x0 = [a, b]"
    using assms(3) by (metis One_nat_def Suc_1 length_0_conv length_Suc_conv)
  show "buf_x (fst (first_sweep opt 2 4 ((S6 x0 lo0 hi0 s)\<lparr>mCacheOrder := []\<rparr>))) = [0, 2]"
    using assms x0
    by (simp add: first_sweep_def first_row_def upt_2 S6_def row_residual_def project_def Let_def upt_rec[of 0 1] )
  show "mCacheOrder (fst (first_sweep opt 2 4 ((S6 x0 lo0 hi0 s)\<lparr>mCacheOrder := []\<rparr>))) = [1]"
    using assms x0
    by (simp add: first_sweep_def first_row_def upt_2 S6_def row_residual_def project_def Let_def upt_rec[of 0 1])
  show "S6_swept opt (normalize 2 4 (fst (first_sweep opt 2 4 ((S6 x0 lo0 hi0 s)\<lparr>mCacheOrder := []\<rparr>))))"
    using assms x0
    by (simp add: first_sweep_def first_row_def upt_2 S6_def row_residual_def project_def Let_def upt_rec[of 0 1]
        normalize_def normalize_row_def S6_swept_def)
qed

lemma S6_sweep:
  assumes "S6_swept opt t"
  shows "S6_swept opt (fst (sweep opt 2 4 t))"
  using assms
  by (simp add: S6_swept_def sweep_def sweep_row_def row_residual_def project_def Let_def upt_rec[of 0 1] upt_rec[of 2 2])

lemma S6_shuffle:
  assumes "S6_swept opt t"
  shows "S6_swept opt (shuffle t)"
  using assms by (simp add: S6_swept_def shuffle_def)

lemma S6_solve:
  assumes "0 < mEpsilonForDivision opt" "mEpsilonForDivision opt \<le> 2"
    and "length x0 = 2" "lo0 ! 1 \<le> 2" "2 \<le> hi0 ! 1"
  shows "buf_x (solve opt 2 0 (S6 x0 lo0 hi0 s)) = [0, 2] \<and>
         mCacheOrder (solve opt 2 0 (S6 x0 lo0 hi0 s)) = [1]"
proof -
  let ?f = "fst (first_sweep opt 2 4 ((S6 x0 lo0 hi0 s)\<lparr>mCacheOrder := []\<rparr>))"
  have d: "dPAD 2 = 4" by (simp add: dPAD_def)
  have "S6_swept opt (iterate opt 2 4 1 (normalize 2 4 ?f))"
    by (rule iterate_invariant[OF S6_first(3)[OF assms] S6_shuffle S6_sweep])
  then have it: "buf_x (iterate opt 2 4 1 (normalize 2 4 ?f)) = [0, 2] \<and>
      mCacheOrder (iterate opt 2 4 1 (normalize 2 4 ?f)) = [1]"
    by (simp add: S6_swept_def)
  have "\<not> (0::int) \<ge> int 2" by simp
  from solve_iterative[OF this, of opt "S6 x0 lo0 hi0 s"] show ?thesis
    using it S6_first(1,2)[OF assms, of s] by (simp add: d)
qed

text \<open>
  C4. In the pointer-form \<open>solve\<close> with \<open>nub < n\<close>, every row \<open>i\<close> whose diagonal satisfies
  \<open>A[i,i] < epsilonForDivision\<close> ends with \<open>x[i] = 0\<close> and is not in the sweep order, so no
  later sweep updates it. On scenario S6 (\<open>A = [[0,0],[0,2]]\<close>, \<open>b = [7,4]\<close>, bounds that
  contain 2 on row 1, \<open>findex = [-1,-1]\<close>), for every start vector of length 2 and every
  option set with \<open>0 < epsilonForDivision \<le> 2\<close>, the solver returns \<open>x = [0,2]\<close> and the
  sweep order is \<open>[1]\<close>.
\<close>

theorem degenerate_row_excluded:
  "(\<not> nub \<ge> int n \<and> length (buf_x s) = n \<and> i < n \<and>
      buf_A s ! (dPAD n * i + i) < mEpsilonForDivision opt
    \<longrightarrow> buf_x (solve opt n nub s) ! i = 0 \<and> i \<notin> set (mCacheOrder (solve opt n nub s))) \<and>
   (0 < mEpsilonForDivision opt \<and> mEpsilonForDivision opt \<le> 2 \<and>
      length x0 = 2 \<and> lo0 ! 1 \<le> 2 \<and> 2 \<le> hi0 ! 1
    \<longrightarrow> buf_x (solve opt 2 0 (S6 x0 lo0 hi0 s)) = [0, 2] \<and>
        mCacheOrder (solve opt 2 0 (S6 x0 lo0 hi0 s)) = [1])"
  using parked_solve[where nub = nub and n = n and s = s and i = i and opt = opt]
    S6_solve[where opt = opt and ?x0.0 = x0 and ?lo0.0 = lo0 and ?hi0.0 = hi0 and s = s]
  by (simp add: parked_def degenerate_def)

theorem degenerate_row_excluded_witness:
  "buf_x (solve typical_option 2 0
      (mem_of [0, 0, 0, 0, 0, 2, 0, 0] [0, 0] [7, 4] [- 100, - 100] [100, 100] [- 1, - 1])) ! 0 = 0 \<and>
   0 \<notin> set (mCacheOrder (solve typical_option 2 0
      (mem_of [0, 0, 0, 0, 0, 2, 0, 0] [0, 0] [7, 4] [- 100, - 100] [100, 100] [- 1, - 1]))) \<and>
   buf_x (solve typical_option 2 0
      (mem_of [0, 0, 0, 0, 0, 2, 0, 0] [0, 0] [7, 4] [- 100, - 100] [100, 100] [- 1, - 1])) = [0, 2] \<and>
   mCacheOrder (solve typical_option 2 0
      (mem_of [0, 0, 0, 0, 0, 2, 0, 0] [0, 0] [7, 4] [- 100, - 100] [100, 100] [- 1, - 1])) = [1]"
proof -
  let ?m = "mem_of [0, 0, 0, 0, 0, 2, 0, 0] [0, 0] [7, 4] [- 100, - 100] [100, 100] [- 1, - 1]"
  have e: "S6 [0, 0] [- 100, - 100] [100, 100] ?m = ?m"
    by (simp add: S6_def mem_of_def)
  have h1: "\<not> (0::int) \<ge> int 2 \<and> length (buf_x ?m) = 2 \<and> (0::nat) < 2 \<and>
      buf_A ?m ! (dPAD 2 * 0 + 0) < mEpsilonForDivision typical_option"
    by (simp add: mem_of_def typical_option_def)
  have h2: "0 < mEpsilonForDivision typical_option \<and> mEpsilonForDivision typical_option \<le> 2 \<and>
      length [0, 0 :: real] = 2 \<and> [- 100, - 100 :: real] ! 1 \<le> 2 \<and> 2 \<le> [100, 100 :: real] ! 1"
    by (simp add: typical_option_def)
  show ?thesis
    using degenerate_row_excluded[where nub = 0 and n = 2 and s = ?m and i = 0
        and opt = typical_option and ?x0.0 = "[0, 0]" and ?lo0.0 = "[- 100, - 100]"
        and ?hi0.0 = "[100, 100]"]
      h1 h2 e by simp
qed

section \<open>No division by zero\<close>

lemma first_sweep_frame_Ab:
  "buf_A (fst (first_sweep opt n nskip s)) = buf_A s \<and> buf_b (fst (first_sweep opt n nskip s)) = buf_b s"
  unfolding first_sweep_def
  by (rule fold_preserves[where P = "\<lambda>p. buf_A (fst p) = buf_A s \<and> buf_b (fst p) = buf_b s"])
     (simp_all add: first_row_frame)













section \<open>The lower bound of a friction row is not read\<close>
















section \<open>Box containment\<close>









text \<open>The equations that evaluate \<open>solve\<close> on a concrete memory.\<close>

lemmas pgs_eval = solve_def dPAD_def first_sweep_def first_row_def row_residual_def project_def
  normalize_def normalize_row_def sweep_def sweep_row_def shuffle_def shuffle_step_def dRandInt_def
  iterate.simps mem_of_def typical_option_def Let_def upt_conv_Cons



text \<open>
  With \<open>epsilonForDivision = 0\<close> the row of \<open>A = [[0]]\<close> is swept and its quotient divides by
  zero: the run is flagged.
\<close>

lemma zero_epsilon_divides_by_zero:
  "div_by_zero (solve (typical_option\<lparr>mEpsilonForDivision := 0\<rparr>) 1 0
     (mem_of [0, 0, 0, 0] [0] [0] [- 100] [100] [- 1]))"
  by (simp add: pgs_eval)

section \<open>Return after a single converged sweep\<close>

lemma first_row_flag:
  "snd (first_row opt n nskip i (s, t)) =
     (if degenerate opt nskip s i then t
      else t \<and> \<not> \<bar>buf_x (fst (first_row opt n nskip i (s, t))) ! i - buf_x s ! i\<bar>
                   > mDeltaXThreshold opt)"
  by (simp add: first_row_def degenerate_def Let_def)

lemma first_sweep_prefix_flag:
  assumes "m \<le> length (buf_x s)"
  shows "snd (fold (first_row opt n nskip) [0..<m] (s, True)) \<longleftrightarrow>
     (\<forall>i<m. \<not> degenerate opt nskip s i \<longrightarrow>
        \<bar>buf_x (fst (fold (first_row opt n nskip) [0..<m] (s, True))) ! i - buf_x s ! i\<bar>
          \<le> mDeltaXThreshold opt)"
  using assms
proof (induction m)
  case 0
  show ?case by simp
next
  case (Suc m)
  obtain s' t' where e: "fold (first_row opt n nskip) [0..<m] (s, True) = (s', t')"
    by (cases "fold (first_row opt n nskip) [0..<m] (s, True)")
  have A: "buf_A s' = buf_A s"
    using first_sweep_prefix_A[of opt n nskip m s True] e by simp
  have L: "length (buf_x s') = length (buf_x s)"
    using first_sweep_prefix_length[of opt n nskip m s True] e by simp
  have U: "buf_x s' ! m = buf_x s ! m"
    using first_sweep_prefix_untouched[of m m opt n nskip s True] e by simp
  have D: "degenerate opt nskip s' m = degenerate opt nskip s m"
    by (simp add: degenerate_def A)
  let ?s2 = "fst (first_row opt n nskip m (s', t'))"
  have old: "\<And>i. i < m \<Longrightarrow> buf_x ?s2 ! i = buf_x s' ! i"
    by (simp add: first_row_x)
  have IH: "t' \<longleftrightarrow> (\<forall>i<m. \<not> degenerate opt nskip s i \<longrightarrow>
        \<bar>buf_x s' ! i - buf_x s ! i\<bar> \<le> mDeltaXThreshold opt)"
    using Suc e by simp
  have "snd (first_row opt n nskip m (s', t')) \<longleftrightarrow>
      t' \<and> (\<not> degenerate opt nskip s m \<longrightarrow> \<bar>buf_x ?s2 ! m - buf_x s ! m\<bar> \<le> mDeltaXThreshold opt)"
    by (simp add: first_row_flag D U not_less)
  also have "\<dots> \<longleftrightarrow> (\<forall>i<Suc m. \<not> degenerate opt nskip s i \<longrightarrow>
        \<bar>buf_x ?s2 ! i - buf_x s ! i\<bar> \<le> mDeltaXThreshold opt)"
    using IH old by (auto simp: less_Suc_eq)
  finally show ?case using e by simp
qed

text \<open>
  C8 (amended). For every input \<open>x\<close> such that, during the first sweep, every updated row
  (every row whose diagonal is not below \<open>epsilonForDivision\<close>) changes by at most
  \<open>deltaXThreshold\<close>, the pointer-form \<open>solve\<close> with \<open>nub < n\<close> returns right after that single
  sweep, with \<open>A\<close> and \<open>b\<close> untouched, and the returned \<open>x\<close> differs from the input by at most
  \<open>deltaXThreshold\<close> on every updated row. A row with degenerate diagonal is set to 0
  without entering the convergence test, whatever its input value.
\<close>

theorem converged_single_sweep:
  assumes "\<not> nub \<ge> int n" and "length (buf_x s) = n"
    and "\<forall>i<n. \<not> buf_A s ! (dPAD n * i + i) < mEpsilonForDivision opt \<longrightarrow>
           \<bar>buf_x (fst (first_sweep opt n (dPAD n) (s\<lparr>mCacheOrder := []\<rparr>))) ! i - buf_x s ! i\<bar>
             \<le> mDeltaXThreshold opt"
  shows "solve opt n nub s = fst (first_sweep opt n (dPAD n) (s\<lparr>mCacheOrder := []\<rparr>)) \<and>
         buf_A (solve opt n nub s) = buf_A s \<and> buf_b (solve opt n nub s) = buf_b s \<and>
         (\<forall>i<n. if buf_A s ! (dPAD n * i + i) < mEpsilonForDivision opt
                then buf_x (solve opt n nub s) ! i = 0
                else \<bar>buf_x (solve opt n nub s) ! i - buf_x s ! i\<bar> \<le> mDeltaXThreshold opt)"
proof -
  let ?s0 = "s\<lparr>mCacheOrder := []\<rparr>"
  have deg: "\<And>i. degenerate opt (dPAD n) ?s0 i \<longleftrightarrow> buf_A s ! (dPAD n * i + i) < mEpsilonForDivision opt"
    by (simp add: degenerate_def)
  have "snd (first_sweep opt n (dPAD n) ?s0)"
    unfolding first_sweep_def
    using first_sweep_prefix_flag[of n ?s0 opt n "dPAD n"] assms(2,3)
    by (simp add: deg first_sweep_def)
  then have eq: "solve opt n nub s = fst (first_sweep opt n (dPAD n) ?s0)"
    by (simp add: solve_iterative[OF assms(1)])
  have zero: "\<And>i. i < n \<Longrightarrow> buf_A s ! (dPAD n * i + i) < mEpsilonForDivision opt \<Longrightarrow>
      buf_x (fst (first_sweep opt n (dPAD n) ?s0)) ! i = 0"
    unfolding first_sweep_def
    using first_sweep_prefix_zero[of _ n ?s0 opt "dPAD n" n True] assms(2) by (simp add: deg)
  show ?thesis
    using eq first_sweep_frame_Ab[of opt n "dPAD n" ?s0] assms(3) zero by simp
qed

theorem converged_single_sweep_witness:
  "\<not> (0::int) \<ge> int 2 \<and>
   solve typical_option 2 0 (mem_of [2, 0, 0, 0, 0, 2, 0, 0] [1, 0] [3, - 3] [0, 0] [1, 1] [- 1, - 1])
     = fst (first_sweep typical_option 2 (dPAD 2)
         ((mem_of [2, 0, 0, 0, 0, 2, 0, 0] [1, 0] [3, - 3] [0, 0] [1, 1] [- 1, - 1])\<lparr>mCacheOrder := []\<rparr>)) \<and>
   \<bar>buf_x (solve typical_option 2 0
        (mem_of [2, 0, 0, 0, 0, 2, 0, 0] [1, 0] [3, - 3] [0, 0] [1, 1] [- 1, - 1])) ! 0
     - buf_x (mem_of [2, 0, 0, 0, 0, 2, 0, 0] [1, 0] [3, - 3] [0, 0] [1, 1] [- 1, - 1]) ! 0\<bar>
     \<le> mDeltaXThreshold typical_option"
proof -
  let ?m = "mem_of [2, 0, 0, 0, 0, 2, 0, 0] [1, 0] [3, - 3] [0, 0] [1, 1] [- 1, - 1]"
  have h1: "\<not> (0::int) \<ge> int 2" "length (buf_x ?m) = 2"
    by (simp_all add: mem_of_def)
  have h2: "\<forall>i<2. \<not> buf_A ?m ! (dPAD 2 * i + i) < mEpsilonForDivision typical_option \<longrightarrow>
           \<bar>buf_x (fst (first_sweep typical_option 2 (dPAD 2) (?m\<lparr>mCacheOrder := []\<rparr>))) ! i - buf_x ?m ! i\<bar>
             \<le> mDeltaXThreshold typical_option"
    by (simp add: pgs_eval less_Suc_eq numeral_2_eq_2)
  have nd: "\<not> buf_A ?m ! (dPAD 2 * 0 + 0) < mEpsilonForDivision typical_option"
    by (simp add: mem_of_def typical_option_def)
  from converged_single_sweep[OF h1 h2] have
    c: "solve typical_option 2 0 ?m = fst (first_sweep typical_option 2 (dPAD 2) (?m\<lparr>mCacheOrder := []\<rparr>))"
    and r: "\<forall>i<2. if buf_A ?m ! (dPAD 2 * i + i) < mEpsilonForDivision typical_option
                then buf_x (solve typical_option 2 0 ?m) ! i = 0
                else \<bar>buf_x (solve typical_option 2 0 ?m) ! i - buf_x ?m ! i\<bar> \<le> mDeltaXThreshold typical_option"
    by blast+
  from r nd have "\<bar>buf_x (solve typical_option 2 0 ?m) ! 0 - buf_x ?m ! 0\<bar> \<le> mDeltaXThreshold typical_option"
    by (metis zero_less_numeral)
  then show ?thesis using h1(1) c by blast
qed

text \<open>
  On \<open>A = [[0]]\<close> with input \<open>x = [5]\<close> no row is updated, the solver returns after the first
  sweep, and the returned \<open>x = [0]\<close> differs from the input by 5.
\<close>

theorem converged_single_sweep_counterexample:
  "\<not> (0::int) \<ge> int 1 \<and>
   buf_A (mem_of [0, 0, 0, 0] [5] [0] [- 100] [100] [- 1]) ! (dPAD 1 * 0 + 0)
     < mEpsilonForDivision typical_option \<and>
   mCacheOrder (solve typical_option 1 0 (mem_of [0, 0, 0, 0] [5] [0] [- 100] [100] [- 1])) = [] \<and>
   buf_x (solve typical_option 1 0 (mem_of [0, 0, 0, 0] [5] [0] [- 100] [100] [- 1])) ! 0 = 0 \<and>
   buf_x (mem_of [0, 0, 0, 0] [5] [0] [- 100] [100] [- 1]) ! 0 = 5 \<and>
   \<not> \<bar>buf_x (solve typical_option 1 0 (mem_of [0, 0, 0, 0] [5] [0] [- 100] [100] [- 1])) ! 0
       - buf_x (mem_of [0, 0, 0, 0] [5] [0] [- 100] [100] [- 1]) ! 0\<bar>
     \<le> mDeltaXThreshold typical_option"
  by (simp add: pgs_eval)

section \<open>Friction-cone containment\<close>













section \<open>Correctness of the LDLT factor and solve\<close>

lemma dot_prefix_sum:
  "dot_prefix A p B q m = (\<Sum>k<m. A ! (p + k) * B ! (q + k))"
proof -
  have "fold (\<lambda>k acc. acc + A ! (p + k) * B ! (q + k)) [0..<m] a
      = a + (\<Sum>k<m. A ! (p + k) * B ! (q + k))" for a
    by (induction m arbitrary: a) simp_all
  then show ?thesis by (simp add: dot_prefix_def)
qed

lemma cell_inj:
  assumes "j < nskip" "j' < nskip"
  shows "nskip * i + j = nskip * i' + j' \<longleftrightarrow> i = i' \<and> j = (j' :: nat)"
proof
  assume e: "nskip * i + j = nskip * i' + j'"
  have "(nskip * i + j) div nskip = i" "(nskip * i' + j') div nskip = i'"
    using assms by simp_all
  then have "i = i'" using e by simp
  then show "i = i' \<and> j = j'" using e by simp
qed simp

text \<open>The first inner loop of the factorization of row i, after j0 columns.\<close>

lemma factor_solve_row_prefix:
  assumes i: "i < nskip" and fit: "nskip * Suc i \<le> length A" and j0: "j0 \<le> i"
  shows "length (fold (factor_solve_step nskip i) [0..<j0] A) = length A \<and>
    (\<forall>p. (\<forall>j<j0. p \<noteq> nskip * i + j) \<longrightarrow> fold (factor_solve_step nskip i) [0..<j0] A ! p = A ! p) \<and>
    (\<forall>j<j0. fold (factor_solve_step nskip i) [0..<j0] A ! (nskip * i + j)
       = A ! (nskip * i + j) -
         (\<Sum>k<j. fold (factor_solve_step nskip i) [0..<j0] A ! (nskip * i + k) * A ! (nskip * j + k)))"
  using j0
proof (induction j0)
  case 0
  show ?case by simp
next
  case (Suc j0)
  define R where "R = fold (factor_solve_step nskip i) [0..<j0] A"
  define v where "v = R ! (nskip * i + j0) - dot_prefix R (nskip * i) R (nskip * j0) j0"
  have jl: "j0 < i" using Suc.prems by simp
  have len: "length R = length A"
    and same: "\<And>p. (\<forall>j<j0. p \<noteq> nskip * i + j) \<Longrightarrow> R ! p = A ! p"
    and eqs: "\<And>j. j < j0 \<Longrightarrow> R ! (nskip * i + j) = A ! (nskip * i + j) -
         (\<Sum>k<j. R ! (nskip * i + k) * A ! (nskip * j + k))"
    using Suc.IH jl unfolding R_def by simp_all
  have step: "fold (factor_solve_step nskip i) [0..<Suc j0] A = R[nskip * i + j0 := v]"
    by (simp add: R_def v_def factor_solve_step_def)
  have inb: "nskip * i + j0 < length R" using len fit jl i by simp
  have rowj0: "R ! (nskip * j0 + k) = A ! (nskip * j0 + k)" if "k < j0" for k
  proof (rule same, intro allI impI)
    fix j assume "j < j0"
    have "k < nskip" "j < nskip" using that \<open>j < j0\<close> jl i by simp_all
    then show "nskip * j0 + k \<noteq> nskip * i + j"
      using cell_inj[of k nskip j j0 i] jl by simp
  qed
  have cur: "R ! (nskip * i + j0) = A ! (nskip * i + j0)"
    by (rule same) simp
  have "dot_prefix R (nskip * i) R (nskip * j0) j0
      = (\<Sum>k<j0. R ! (nskip * i + k) * R ! (nskip * j0 + k))"
    by (rule dot_prefix_sum)
  also have "\<dots> = (\<Sum>k<j0. R ! (nskip * i + k) * A ! (nskip * j0 + k))"
    by (rule sum.cong) (simp_all add: rowj0)
  finally have v: "v = A ! (nskip * i + j0) - (\<Sum>k<j0. R ! (nskip * i + k) * A ! (nskip * j0 + k))"
    using cur by (simp add: v_def)
  have c1: "length (R[nskip * i + j0 := v]) = length A" using len by simp
  have c2: "\<forall>p. (\<forall>j<Suc j0. p \<noteq> nskip * i + j) \<longrightarrow> R[nskip * i + j0 := v] ! p = A ! p"
  proof (intro allI impI)
    fix p assume p: "\<forall>j<Suc j0. p \<noteq> nskip * i + j"
    then have "p \<noteq> nskip * i + j0" by simp
    then have "R[nskip * i + j0 := v] ! p = R ! p" by simp
    also have "\<dots> = A ! p" by (rule same) (use p in simp)
    finally show "R[nskip * i + j0 := v] ! p = A ! p" .
  qed
  have keep: "R[nskip * i + j0 := v] ! (nskip * i + k) = R ! (nskip * i + k)" if "k < j0" for k
    using that by simp
  have c3: "\<forall>j<Suc j0. R[nskip * i + j0 := v] ! (nskip * i + j) = A ! (nskip * i + j) -
         (\<Sum>k<j. R[nskip * i + j0 := v] ! (nskip * i + k) * A ! (nskip * j + k))"
  proof (intro allI impI)
    fix j assume "j < Suc j0"
    show "R[nskip * i + j0 := v] ! (nskip * i + j) = A ! (nskip * i + j) -
         (\<Sum>k<j. R[nskip * i + j0 := v] ! (nskip * i + k) * A ! (nskip * j + k))"
    proof (cases "j = j0")
      case True
      have "R[nskip * i + j0 := v] ! (nskip * i + j0) = v" using inb by simp
      moreover have "(\<Sum>k<j0. R[nskip * i + j0 := v] ! (nskip * i + k) * A ! (nskip * j0 + k))
          = (\<Sum>k<j0. R ! (nskip * i + k) * A ! (nskip * j0 + k))"
        by (rule sum.cong) (simp_all add: keep)
      ultimately show ?thesis using v True by simp
    next
      case False
      then have jj: "j < j0" using \<open>j < Suc j0\<close> by simp
      have "(\<Sum>k<j. R[nskip * i + j0 := v] ! (nskip * i + k) * A ! (nskip * j + k))
          = (\<Sum>k<j. R ! (nskip * i + k) * A ! (nskip * j + k))"
        by (rule sum.cong) (use jj in \<open>simp_all add: keep\<close>)
      then show ?thesis using eqs[OF jj] keep[OF jj] by simp
    qed
  qed
  show ?case unfolding step using c1 c2 c3 by blast
qed

lemma factor_scale_row_prefix:
  assumes i: "i < nskip" and fit: "nskip * Suc i \<le> length A" and j0: "j0 \<le> i"
  shows "length (fst (fold (factor_scale_step nskip i d) [0..<j0] (A, a))) = length A \<and>
    (\<forall>p. (\<forall>j<j0. p \<noteq> nskip * i + j) \<longrightarrow>
        fst (fold (factor_scale_step nskip i d) [0..<j0] (A, a)) ! p = A ! p) \<and>
    (\<forall>j<j0. fst (fold (factor_scale_step nskip i d) [0..<j0] (A, a)) ! (nskip * i + j)
        = A ! (nskip * i + j) * d ! j) \<and>
    snd (fold (factor_scale_step nskip i d) [0..<j0] (A, a))
        = a - (\<Sum>j<j0. A ! (nskip * i + j) * (A ! (nskip * i + j) * d ! j))"
  using j0
proof (induction j0)
  case 0
  show ?case by simp
next
  case (Suc j0)
  define R where "R = fst (fold (factor_scale_step nskip i d) [0..<j0] (A, a))"
  define r where "r = snd (fold (factor_scale_step nskip i d) [0..<j0] (A, a))"
  define q where "q = R ! (nskip * i + j0) * d ! j0"
  have jl: "j0 < i" using Suc.prems by simp
  have len: "length R = length A"
    and same: "\<And>p. (\<forall>j<j0. p \<noteq> nskip * i + j) \<Longrightarrow> R ! p = A ! p"
    and eqs: "\<And>j. j < j0 \<Longrightarrow> R ! (nskip * i + j) = A ! (nskip * i + j) * d ! j"
    and r: "r = a - (\<Sum>j<j0. A ! (nskip * i + j) * (A ! (nskip * i + j) * d ! j))"
    using Suc.IH jl unfolding R_def r_def by simp_all
  have pair: "fold (factor_scale_step nskip i d) [0..<j0] (A, a) = (R, r)"
    by (simp add: R_def r_def)
  have step: "fold (factor_scale_step nskip i d) [0..<Suc j0] (A, a)
      = (R[nskip * i + j0 := q], r - R ! (nskip * i + j0) * q)"
    by (simp add: pair factor_scale_step_def q_def Let_def)
  have inb: "nskip * i + j0 < length R" using len fit jl i by simp
  have cur: "R ! (nskip * i + j0) = A ! (nskip * i + j0)"
    by (rule same) simp
  have c1: "length (R[nskip * i + j0 := q]) = length A" using len by simp
  have c2: "\<forall>p. (\<forall>j<Suc j0. p \<noteq> nskip * i + j) \<longrightarrow> R[nskip * i + j0 := q] ! p = A ! p"
  proof (intro allI impI)
    fix p assume p: "\<forall>j<Suc j0. p \<noteq> nskip * i + j"
    then have "p \<noteq> nskip * i + j0" by simp
    then have "R[nskip * i + j0 := q] ! p = R ! p" by simp
    also have "\<dots> = A ! p" by (rule same) (use p in simp)
    finally show "R[nskip * i + j0 := q] ! p = A ! p" .
  qed
  have c3: "\<forall>j<Suc j0. R[nskip * i + j0 := q] ! (nskip * i + j) = A ! (nskip * i + j) * d ! j"
  proof (intro allI impI)
    fix j assume "j < Suc j0"
    show "R[nskip * i + j0 := q] ! (nskip * i + j) = A ! (nskip * i + j) * d ! j"
    proof (cases "j = j0")
      case True
      then show ?thesis using inb cur by (simp add: q_def)
    next
      case False
      then have "j < j0" using \<open>j < Suc j0\<close> by simp
      then show ?thesis using eqs False by simp
    qed
  qed
  have c4: "r - R ! (nskip * i + j0) * q
      = a - (\<Sum>j<Suc j0. A ! (nskip * i + j) * (A ! (nskip * i + j) * d ! j))"
    using r cur by (simp add: q_def)
  show ?case unfolding step using c1 c2 c3 c4 by simp
qed

text \<open>One row of the factorization, in terms of the intermediate row Y.\<close>

lemma factor_row_effect:
  assumes i: "i < nskip" and fit: "nskip * Suc i \<le> length A"
  obtains Y where
    "length (fst (factor_row nskip i (A, d))) = length A"
    "\<And>p. (\<forall>j<i. p \<noteq> nskip * i + j) \<Longrightarrow> fst (factor_row nskip i (A, d)) ! p = A ! p"
    "\<And>j. j < i \<Longrightarrow> Y j = A ! (nskip * i + j) - (\<Sum>k<j. Y k * A ! (nskip * j + k))"
    "\<And>j. j < i \<Longrightarrow> fst (factor_row nskip i (A, d)) ! (nskip * i + j) = Y j * d ! j"
    "snd (factor_row nskip i (A, d)) =
       d[i := 1 / (A ! (nskip * i + i) - (\<Sum>j<i. Y j * (Y j * d ! j)))]"
proof -
  define A1 where "A1 = factor_solve_row nskip i A"
  define P where "P = factor_scale_row nskip i d (A1, A1 ! (nskip * i + i))"
  define Y where "Y = (\<lambda>j. A1 ! (nskip * i + j))"
  have fr: "factor_row nskip i (A, d) = (fst P, d[i := 1 / snd P])"
    by (simp add: factor_row_def A1_def P_def Let_def split: prod.splits)
  note s1 = factor_solve_row_prefix[OF i fit order_refl, folded factor_solve_row_def, folded A1_def]
  have l1: "length A1 = length A"
    and same1: "\<And>p. (\<forall>j<i. p \<noteq> nskip * i + j) \<Longrightarrow> A1 ! p = A ! p"
    and eq1: "\<And>j. j < i \<Longrightarrow> A1 ! (nskip * i + j) = A ! (nskip * i + j) -
         (\<Sum>k<j. A1 ! (nskip * i + k) * A ! (nskip * j + k))"
    using s1 by simp_all
  have fit1: "nskip * Suc i \<le> length A1" using fit l1 by simp
  note s2 = factor_scale_row_prefix[OF i fit1 order_refl, of d "A1 ! (nskip * i + i)"]
  have P': "P = fold (factor_scale_step nskip i d) [0..<i] (A1, A1 ! (nskip * i + i))"
    by (simp add: P_def factor_scale_row_def)
  have l2: "length (fst P) = length A1"
    and same2: "\<And>p. (\<forall>j<i. p \<noteq> nskip * i + j) \<Longrightarrow> fst P ! p = A1 ! p"
    and eq2: "\<And>j. j < i \<Longrightarrow> fst P ! (nskip * i + j) = A1 ! (nskip * i + j) * d ! j"
    and dii: "snd P = A1 ! (nskip * i + i) - (\<Sum>j<i. A1 ! (nskip * i + j) * (A1 ! (nskip * i + j) * d ! j))"
    using s2 unfolding P' by simp_all
  have diag: "A1 ! (nskip * i + i) = A ! (nskip * i + i)"
    by (rule same1) simp
  show ?thesis
  proof (rule that[of Y])
    show "length (fst (factor_row nskip i (A, d))) = length A"
      using fr l1 l2 by simp
    show "fst (factor_row nskip i (A, d)) ! p = A ! p" if "\<forall>j<i. p \<noteq> nskip * i + j" for p
      using fr same1[OF that] same2[OF that] by simp
    show "Y j = A ! (nskip * i + j) - (\<Sum>k<j. Y k * A ! (nskip * j + k))" if "j < i" for j
      using eq1[OF that] by (simp add: Y_def)
    show "fst (factor_row nskip i (A, d)) ! (nskip * i + j) = Y j * d ! j" if "j < i" for j
      using fr eq2[OF that] by (simp add: Y_def)
    show "snd (factor_row nskip i (A, d)) =
       d[i := 1 / (A ! (nskip * i + i) - (\<Sum>j<i. Y j * (Y j * d ! j)))]"
      using fr dii diag by (simp add: Y_def)
  qed
qed

lemma ldl_row_cong:
  assumes "ldl_row nskip A0 L d i"
    and "\<And>j k. j \<le> i \<Longrightarrow> k < j \<Longrightarrow> L' ! (nskip * j + k) = L ! (nskip * j + k)"
    and "\<And>k. k \<le> i \<Longrightarrow> d' ! k = d ! k"
  shows "ldl_row nskip A0 L' d' i"
proof -
  have a: "L' ! (nskip * i + j) / d' ! j + (\<Sum>k<j. L' ! (nskip * i + k) / d' ! k * L' ! (nskip * j + k))
      = L ! (nskip * i + j) / d ! j + (\<Sum>k<j. L ! (nskip * i + k) / d ! k * L ! (nskip * j + k))"
    if "j < i" for j
  proof -
    have "(\<Sum>k<j. L' ! (nskip * i + k) / d' ! k * L' ! (nskip * j + k))
        = (\<Sum>k<j. L ! (nskip * i + k) / d ! k * L ! (nskip * j + k))"
      by (rule sum.cong) (use that assms(2,3) in simp_all)
    then show ?thesis using that assms(2,3) by simp
  qed
  have b: "(\<Sum>k<i. L' ! (nskip * i + k) / d' ! k * L' ! (nskip * i + k))
        = (\<Sum>k<i. L ! (nskip * i + k) / d ! k * L ! (nskip * i + k))"
    by (rule sum.cong) (use assms(2,3) in simp_all)
  show ?thesis
    using assms(1) a b assms(3)[of i] by (simp add: ldl_row_def)
qed

lemma dFactorLDLT_prefix:
  assumes n: "n \<le> nskip" and fit: "nskip * n \<le> length A0" and dl: "n \<le> length d0" and m: "m \<le> n"
  shows "length (fst (fold (factor_row nskip) [0..<m] (A0, d0))) = length A0 \<and>
    length (snd (fold (factor_row nskip) [0..<m] (A0, d0))) = length d0 \<and>
    (\<forall>p. (\<forall>i<m. \<forall>j<i. p \<noteq> nskip * i + j) \<longrightarrow>
        fst (fold (factor_row nskip) [0..<m] (A0, d0)) ! p = A0 ! p) \<and>
    ((\<forall>k<m. snd (fold (factor_row nskip) [0..<m] (A0, d0)) ! k \<noteq> 0) \<longrightarrow>
     (\<forall>i<m. ldl_row nskip A0 (fst (fold (factor_row nskip) [0..<m] (A0, d0)))
                (snd (fold (factor_row nskip) [0..<m] (A0, d0))) i))"
  using m
proof (induction m)
  case 0
  show ?case by simp
next
  case (Suc m)
  define Am where "Am = fst (fold (factor_row nskip) [0..<m] (A0, d0))"
  define dm where "dm = snd (fold (factor_row nskip) [0..<m] (A0, d0))"
  have mn: "m < n" using Suc.prems by simp
  have lenA: "length Am = length A0" and lend: "length dm = length d0"
    and same: "\<And>p. (\<forall>i<m. \<forall>j<i. p \<noteq> nskip * i + j) \<Longrightarrow> Am ! p = A0 ! p"
    and rel: "(\<forall>k<m. dm ! k \<noteq> 0) \<Longrightarrow> (\<forall>i<m. ldl_row nskip A0 Am dm i)"
    using Suc.IH mn unfolding Am_def dm_def by simp_all
  have pair: "fold (factor_row nskip) [0..<m] (A0, d0) = (Am, dm)"
    by (simp add: Am_def dm_def)
  define A' where "A' = fst (factor_row nskip m (Am, dm))"
  define d' where "d' = snd (factor_row nskip m (Am, dm))"
  have step: "fold (factor_row nskip) [0..<Suc m] (A0, d0) = (A', d')"
    by (simp add: pair A'_def d'_def)
  have mi: "m < nskip" using mn n by simp
  have "Suc m \<le> n" using mn by simp
  then have "nskip * Suc m \<le> nskip * n" by (rule mult_le_mono2)
  then have fitm: "nskip * Suc m \<le> length Am" using fit lenA by simp
  obtain Y where
    l': "length A' = length Am"
    and same': "\<And>p. (\<forall>j<m. p \<noteq> nskip * m + j) \<Longrightarrow> A' ! p = Am ! p"
    and Y: "\<And>j. j < m \<Longrightarrow> Y j = Am ! (nskip * m + j) - (\<Sum>k<j. Y k * Am ! (nskip * j + k))"
    and L: "\<And>j. j < m \<Longrightarrow> A' ! (nskip * m + j) = Y j * dm ! j"
    and d'eq: "d' = dm[m := 1 / (Am ! (nskip * m + m) - (\<Sum>j<m. Y j * (Y j * dm ! j)))]"
    using factor_row_effect[OF mi fitm, of dm] unfolding A'_def d'_def by blast
  have rowm: "Am ! (nskip * m + j) = A0 ! (nskip * m + j)" if "j < nskip" for j
  proof (rule same, intro allI impI)
    fix i j' assume "i < m" "j' < i"
    then have "j' < nskip" using mi by simp
    then show "nskip * m + j \<noteq> nskip * i + j'"
      using cell_inj[OF that, of j' m i] \<open>i < m\<close> by simp
  qed
  have old: "A' ! (nskip * i + j) = Am ! (nskip * i + j)" if "i < m" "j < nskip" for i j
  proof (rule same', intro allI impI)
    fix j' assume "j' < m"
    then have "j' < nskip" using mi by simp
    then show "nskip * i + j \<noteq> nskip * m + j'"
      using cell_inj[OF that(2), of j' i m] that(1) by simp
  qed
  have dold: "d' ! k = dm ! k" if "k < m" for k
    using that by (simp add: d'eq)
  have c1: "length A' = length A0" using l' lenA by simp
  have c2: "length d' = length d0" using lend by (simp add: d'eq)
  have c3: "\<forall>p. (\<forall>i<Suc m. \<forall>j<i. p \<noteq> nskip * i + j) \<longrightarrow> A' ! p = A0 ! p"
  proof (intro allI impI)
    fix p assume p: "\<forall>i<Suc m. \<forall>j<i. p \<noteq> nskip * i + j"
    have "A' ! p = Am ! p" by (rule same') (use p in simp)
    also have "\<dots> = A0 ! p" by (rule same) (use p in simp)
    finally show "A' ! p = A0 ! p" .
  qed
  have c4: "\<forall>i<Suc m. ldl_row nskip A0 A' d' i" if nz: "\<forall>k<Suc m. d' ! k \<noteq> 0"
  proof (intro allI impI)
    fix i assume "i < Suc m"
    have nzm: "\<forall>k<m. dm ! k \<noteq> 0" using nz dold by (metis less_Suc_eq)
    show "ldl_row nskip A0 A' d' i"
    proof (cases "i = m")
      case False
      then have im: "i < m" using \<open>i < Suc m\<close> by simp
      have "ldl_row nskip A0 Am dm i" using rel[OF nzm] im by simp
      then show ?thesis
      proof (rule ldl_row_cong)
        fix j k assume "j \<le> i" "k < j"
        then show "A' ! (nskip * j + k) = Am ! (nskip * j + k)"
          using old[of j k] im mi by simp
      next
        fix k assume "k \<le> i"
        then show "d' ! k = dm ! k" using dold im by simp
      qed
    next
      case True
      have Yd: "Y j = A' ! (nskip * m + j) / d' ! j" if "j < m" for j
        using L[OF that] nzm that dold[OF that] by simp
      have lower: "A0 ! (nskip * m + j) =
          A' ! (nskip * m + j) / d' ! j + (\<Sum>k<j. A' ! (nskip * m + k) / d' ! k * A' ! (nskip * j + k))"
        if "j < m" for j
      proof -
        have "(\<Sum>k<j. Y k * Am ! (nskip * j + k))
            = (\<Sum>k<j. A' ! (nskip * m + k) / d' ! k * A' ! (nskip * j + k))"
          by (rule sum.cong) (use that mi old[of j] Yd in simp_all)
        then show ?thesis
          using Y[OF that] Yd[OF that] rowm[of j] that mi by simp
      qed
      define dii where "dii = Am ! (nskip * m + m) - (\<Sum>j<m. Y j * (Y j * dm ! j))"
      have "m < length dm" using lend dl mn by simp
      then have dm': "d' ! m = 1 / dii" by (simp add: d'eq dii_def)
      then have "dii \<noteq> 0" using nz by auto
      then have inv: "1 / d' ! m = dii" using dm' by simp
      have "(\<Sum>j<m. Y j * (Y j * dm ! j))
          = (\<Sum>k<m. A' ! (nskip * m + k) / d' ! k * A' ! (nskip * m + k))"
        by (rule sum.cong) (use L Yd in simp_all)
      then have diag: "A0 ! (nskip * m + m) =
          1 / d' ! m + (\<Sum>k<m. A' ! (nskip * m + k) / d' ! k * A' ! (nskip * m + k))"
        using inv rowm[OF mi] by (simp add: dii_def)
      show ?thesis using True lower diag by (simp add: ldl_row_def)
    qed
  qed
  show ?case unfolding step using c1 c2 c3 c4 by simp
qed

lemma dSolveL1_prefix:
  assumes "m \<le> length b"
  shows "length (fold (solveL1_step L nskip) [0..<m] b) = length b \<and>
    (\<forall>p\<ge>m. fold (solveL1_step L nskip) [0..<m] b ! p = b ! p) \<and>
    (\<forall>i<m. fold (solveL1_step L nskip) [0..<m] b ! i
        = b ! i - (\<Sum>k<i. L ! (nskip * i + k) * fold (solveL1_step L nskip) [0..<m] b ! k))"
  using assms
proof (induction m)
  case 0
  show ?case by simp
next
  case (Suc m)
  define R where "R = fold (solveL1_step L nskip) [0..<m] b"
  define v where "v = R ! m - (\<Sum>k<m. L ! (nskip * m + k) * R ! k)"
  have len: "length R = length b" and same: "\<And>p. m \<le> p \<Longrightarrow> R ! p = b ! p"
    and eqs: "\<And>i. i < m \<Longrightarrow> R ! i = b ! i - (\<Sum>k<i. L ! (nskip * i + k) * R ! k)"
    using Suc unfolding R_def by simp_all
  have step: "fold (solveL1_step L nskip) [0..<Suc m] b = R[m := v]"
    by (simp add: R_def v_def solveL1_step_def dot_prefix_sum)
  have inb: "m < length R" using len Suc.prems by simp
  have c3: "\<forall>i<Suc m. R[m := v] ! i = b ! i - (\<Sum>k<i. L ! (nskip * i + k) * R[m := v] ! k)"
  proof (intro allI impI)
    fix i assume i: "i < Suc m"
    have s: "(\<Sum>k<i. L ! (nskip * i + k) * R[m := v] ! k) = (\<Sum>k<i. L ! (nskip * i + k) * R ! k)"
      by (rule sum.cong) (use i in simp_all)
    show "R[m := v] ! i = b ! i - (\<Sum>k<i. L ! (nskip * i + k) * R[m := v] ! k)"
    proof (cases "i = m")
      case True
      then show ?thesis using s inb same[of m] by (simp add: v_def)
    next
      case False
      then have "i < m" using i by simp
      then show ?thesis using s eqs False by simp
    qed
  qed
  show ?case unfolding step using len same c3 by simp
qed

lemma dVectorScale_prefix:
  assumes "m \<le> length b"
  shows "length (fold (\<lambda>i b. b[i := b ! i * d ! i]) [0..<m] b) = length b \<and>
    (\<forall>p\<ge>m. fold (\<lambda>i b. b[i := b ! i * d ! i]) [0..<m] b ! p = b ! p) \<and>
    (\<forall>i<m. fold (\<lambda>i b. b[i := b ! i * d ! i]) [0..<m] b ! i = b ! i * d ! i)"
  using assms
proof (induction m)
  case 0
  show ?case by simp
next
  case (Suc m)
  then show ?case by (auto simp: less_Suc_eq nth_list_update)
qed

lemma fold_add_sum:
  "fold (\<lambda>j acc. acc + g j) [a..<c] s = s + sum g {a..<c}" for s :: real
proof (induction c arbitrary: s)
  case 0
  show ?case by simp
next
  case (Suc c)
  show ?case
  proof (cases "a \<le> c")
    case True
    then show ?thesis using Suc by (simp add: sum.atLeastLessThan_Suc)
  next
    case False
    then show ?thesis by simp
  qed
qed

lemma dSolveL1T_suffix:
  assumes "n \<le> length b" "l \<le> n"
  shows "length (fold (solveL1T_step L n nskip) (rev [l..<n]) b) = length b \<and>
    (\<forall>p<l. fold (solveL1T_step L n nskip) (rev [l..<n]) b ! p = b ! p) \<and>
    (\<forall>i. l \<le> i \<and> i < n \<longrightarrow> fold (solveL1T_step L n nskip) (rev [l..<n]) b ! i
        = b ! i - (\<Sum>j = i + 1..<n. L ! (nskip * j + i) * fold (solveL1T_step L n nskip) (rev [l..<n]) b ! j))"
  using assms(2)
proof (induction l rule: inc_induct)
  case base
  show ?case by simp
next
  case (step l)
  define R where "R = fold (solveL1T_step L n nskip) (rev [Suc l..<n]) b"
  define v where "v = R ! l - (\<Sum>j = l + 1..<n. L ! (nskip * j + l) * R ! j)"
  have len: "length R = length b" and same: "\<And>p. p < Suc l \<Longrightarrow> R ! p = b ! p"
    and eqs: "\<And>i. Suc l \<le> i \<Longrightarrow> i < n \<Longrightarrow>
        R ! i = b ! i - (\<Sum>j = i + 1..<n. L ! (nskip * j + i) * R ! j)"
    using step.IH unfolding R_def by simp_all
  have "[l..<n] = l # [Suc l..<n]" using step.hyps by (simp add: upt_conv_Cons)
  then have st: "fold (solveL1T_step L n nskip) (rev [l..<n]) b = R[l := v]"
    by (simp add: R_def v_def solveL1T_step_def fold_add_sum)
  have inb: "l < length R" using len step.hyps assms(1) by simp
  have c3: "\<forall>i. l \<le> i \<and> i < n \<longrightarrow>
      R[l := v] ! i = b ! i - (\<Sum>j = i + 1..<n. L ! (nskip * j + i) * R[l := v] ! j)"
  proof (intro allI impI)
    fix i assume i: "l \<le> i \<and> i < n"
    have s: "(\<Sum>j = i + 1..<n. L ! (nskip * j + i) * R[l := v] ! j)
        = (\<Sum>j = i + 1..<n. L ! (nskip * j + i) * R ! j)"
      by (rule sum.cong) (use i in simp_all)
    show "R[l := v] ! i = b ! i - (\<Sum>j = i + 1..<n. L ! (nskip * j + i) * R[l := v] ! j)"
    proof (cases "i = l")
      case True
      then show ?thesis using s inb same[of l] by (simp add: v_def)
    next
      case False
      then have "Suc l \<le> i" using i by simp
      then show ?thesis using s eqs[of i] i False by simp
    qed
  qed
  show ?case unfolding st using len same c3 by simp
qed

lemma sum_split3:
  fixes f :: "nat \<Rightarrow> real"
  assumes "k < n"
  shows "(\<Sum>j<n. f j) = (\<Sum>j<k. f j) + f k + (\<Sum>j = k + 1..<n. f j)"
proof -
  have "sum f {0..<k} + sum f {k..<n} = sum f {0..<n}"
    by (rule sum.atLeastLessThan_concat) (use assms in simp_all)
  moreover have "sum f {k..<n} = f k + sum f {Suc k..<n}"
    using assms by (simp add: sum.atLeast_Suc_lessThan)
  ultimately show ?thesis by (simp add: atLeast0LessThan)
qed

text \<open>The algebra of the LDLT solve, on functions.\<close>

lemma ldlt_algebra:
  fixes A L :: "nat \<Rightarrow> nat \<Rightarrow> real" and D x y z b :: "nat \<Rightarrow> real"
  assumes A: "\<And>i j. i < n \<Longrightarrow> j < i \<Longrightarrow> A i j = L i j * D j + (\<Sum>k<j. L i k * D k * L j k)"
    and Ad: "\<And>i. i < n \<Longrightarrow> A i i = D i + (\<Sum>k<i. L i k * D k * L i k)"
    and sym: "\<And>i j. i < n \<Longrightarrow> j < n \<Longrightarrow> A i j = A j i"
    and y: "\<And>i. i < n \<Longrightarrow> y i = b i - (\<Sum>k<i. L i k * y k)"
    and z: "\<And>i. i < n \<Longrightarrow> D i * z i = y i"
    and x: "\<And>i. i < n \<Longrightarrow> x i = z i - (\<Sum>j = i + 1..<n. L j i * x j)"
    and i: "i < n"
  shows "(\<Sum>j<n. A i j * x j) = b i"
proof -
  define U where "U = (\<lambda>i k. if k < i then L i k else if k = i then 1 else (0::real))"
  have Ulow: "\<And>i k. k < i \<Longrightarrow> U i k = L i k" and Udiag: "\<And>i. U i i = 1"
    and Uup: "\<And>i k. i < k \<Longrightarrow> U i k = 0"
    by (simp_all add: U_def)
  have prod_le: "A i j = (\<Sum>k<n. U i k * D k * U j k)" if "i < n" "j \<le> i" for i j
  proof -
    have jn: "j < n" using that by simp
    have "(\<Sum>k<n. U i k * D k * U j k)
        = (\<Sum>k<j. U i k * D k * U j k) + U i j * D j * U j j + (\<Sum>k = j + 1..<n. U i k * D k * U j k)"
      by (rule sum_split3[OF jn])
    also have "(\<Sum>k = j + 1..<n. U i k * D k * U j k) = 0"
      by (rule sum.neutral) (simp add: Uup)
    also have "(\<Sum>k<j. U i k * D k * U j k) = (\<Sum>k<j. L i k * D k * L j k)"
      by (rule sum.cong) (use that in \<open>simp_all add: Ulow\<close>)
    finally have e: "(\<Sum>k<n. U i k * D k * U j k) = (\<Sum>k<j. L i k * D k * L j k) + U i j * D j"
      by (simp add: Udiag)
    show ?thesis
    proof (cases "j = i")
      case True
      then show ?thesis using e Ad[OF that(1)] by (simp add: Udiag)
    next
      case False
      then have "j < i" using that by simp
      then show ?thesis using e A[OF that(1)] by (simp add: Ulow)
    qed
  qed
  have prod: "A i j = (\<Sum>k<n. U i k * D k * U j k)" if "i < n" "j < n" for i j
  proof (cases "j \<le> i")
    case True
    then show ?thesis using prod_le that by simp
  next
    case False
    then have "i \<le> j" by simp
    then have "A j i = (\<Sum>k<n. U j k * D k * U i k)" using prod_le that by simp
    also have "\<dots> = (\<Sum>k<n. U i k * D k * U j k)"
      by (rule sum.cong) (simp_all add: mult_ac)
    finally show ?thesis using sym that by simp
  qed
  have col: "(\<Sum>j<n. U j k * x j) = z k" if "k < n" for k
  proof -
    have "(\<Sum>j<n. U j k * x j)
        = (\<Sum>j<k. U j k * x j) + U k k * x k + (\<Sum>j = k + 1..<n. U j k * x j)"
      by (rule sum_split3[OF that])
    also have "(\<Sum>j<k. U j k * x j) = 0"
      by (rule sum.neutral) (simp add: Uup)
    also have "(\<Sum>j = k + 1..<n. U j k * x j) = (\<Sum>j = k + 1..<n. L j k * x j)"
      by (rule sum.cong) (simp_all add: Ulow)
    finally show ?thesis using x[OF that] by (simp add: Udiag)
  qed
  have row: "(\<Sum>k<n. U i k * y k) = b i"
  proof -
    have "(\<Sum>k<n. U i k * y k)
        = (\<Sum>k<i. U i k * y k) + U i i * y i + (\<Sum>k = i + 1..<n. U i k * y k)"
      by (rule sum_split3[OF i])
    also have "(\<Sum>k = i + 1..<n. U i k * y k) = 0"
      by (rule sum.neutral) (simp add: Uup)
    also have "(\<Sum>k<i. U i k * y k) = (\<Sum>k<i. L i k * y k)"
      by (rule sum.cong) (simp_all add: Ulow)
    finally show ?thesis using y[OF i] by (simp add: Udiag)
  qed
  have "(\<Sum>j<n. A i j * x j) = (\<Sum>j<n. \<Sum>k<n. U i k * D k * (U j k * x j))"
    by (rule sum.cong) (simp_all add: prod[OF i] sum_distrib_right mult.assoc)
  also have "\<dots> = (\<Sum>k<n. \<Sum>j<n. U i k * D k * (U j k * x j))"
    by (rule sum.swap)
  also have "\<dots> = (\<Sum>k<n. U i k * D k * (\<Sum>j<n. U j k * x j))"
    by (simp add: sum_distrib_left)
  also have "\<dots> = (\<Sum>k<n. U i k * y k)"
    by (rule sum.cong) (simp_all add: col z mult.assoc)
  finally show ?thesis using row by simp
qed

lemma dPAD_ge: "n \<le> dPAD n"
  by (simp add: dPAD_def)

lemma dSolveLDLT_length:
  assumes "n \<le> length b"
  shows "length (dSolveLDLT L d b n nskip) = length b"
proof -
  have 1: "length (dSolveL1 L b n nskip) = length b"
    using dSolveL1_prefix[OF assms, of L nskip] by (simp add: dSolveL1_def)
  then have 2: "length (dVectorScale (dSolveL1 L b n nskip) d n) = length b"
    using dVectorScale_prefix[of n "dSolveL1 L b n nskip" d] assms by (simp add: dVectorScale_def)
  then show ?thesis
    using dSolveL1T_suffix[of n "dVectorScale (dSolveL1 L b n nskip) d n" 0 L nskip] assms
    by (simp add: dSolveLDLT_def dSolveL1T_def)
qed

lemma dSolveLDLT_solves:
  assumes n: "n \<le> nskip" and fit: "nskip * n \<le> length A0" and dl: "n \<le> length d0"
    and bl: "n \<le> length b0"
    and sym: "\<forall>i<n. \<forall>j<n. A0 ! (nskip * i + j) = A0 ! (nskip * j + i)"
    and piv: "\<forall>k<n. snd (dFactorLDLT A0 d0 n nskip) ! k \<noteq> 0"
    and i: "i < n"
  shows "(\<Sum>j<n. A0 ! (nskip * i + j) *
            dSolveLDLT (fst (dFactorLDLT A0 d0 n nskip)) (snd (dFactorLDLT A0 d0 n nskip)) b0 n nskip ! j)
         = b0 ! i"
proof -
  define L where "L = fst (dFactorLDLT A0 d0 n nskip)"
  define d where "d = snd (dFactorLDLT A0 d0 n nskip)"
  define y where "y = dSolveL1 L b0 n nskip"
  define z where "z = dVectorScale y d n"
  define x where "x = dSolveL1T L z n nskip"
  have xdef: "dSolveLDLT L d b0 n nskip = x"
    by (simp add: dSolveLDLT_def x_def z_def y_def)
  have nz: "\<forall>k<n. d ! k \<noteq> 0" using piv by (simp add: d_def)
  have rows: "\<forall>i<n. ldl_row nskip A0 L d i"
    using dFactorLDLT_prefix[OF n fit dl order_refl] nz
    by (simp add: L_def d_def dFactorLDLT_def)
  have ly: "length y = length b0"
    and yeq: "\<And>i. i < n \<Longrightarrow> y ! i = b0 ! i - (\<Sum>k<i. L ! (nskip * i + k) * y ! k)"
    using dSolveL1_prefix[OF bl, of L nskip] by (simp_all add: y_def dSolveL1_def)
  have lz: "length z = length b0" and zeq: "\<And>i. i < n \<Longrightarrow> z ! i = y ! i * d ! i"
    using dVectorScale_prefix[of n y d] bl ly by (simp_all add: z_def dVectorScale_def)
  have xeq: "\<And>i. i < n \<Longrightarrow> x ! i = z ! i - (\<Sum>j = i + 1..<n. L ! (nskip * j + i) * x ! j)"
    using dSolveL1T_suffix[of n z 0 L nskip] bl lz by (simp add: x_def dSolveL1T_def)
  have "(\<Sum>j<n. A0 ! (nskip * i + j) * x ! j) = b0 ! i"
  proof (rule ldlt_algebra[where A = "\<lambda>i j. A0 ! (nskip * i + j)" and L = "\<lambda>i j. L ! (nskip * i + j)"
        and D = "\<lambda>k. 1 / d ! k" and y = "\<lambda>k. y ! k" and z = "\<lambda>k. z ! k" and x = "\<lambda>k. x ! k"
        and b = "\<lambda>k. b0 ! k" and n = n])
    fix i j assume "i < n" "j < i"
    then show "A0 ! (nskip * i + j) = L ! (nskip * i + j) * (1 / d ! j) +
        (\<Sum>k<j. L ! (nskip * i + k) * (1 / d ! k) * L ! (nskip * j + k))"
      using rows by (simp add: ldl_row_def)
  next
    fix i assume "i < n"
    then show "A0 ! (nskip * i + i) = 1 / d ! i +
        (\<Sum>k<i. L ! (nskip * i + k) * (1 / d ! k) * L ! (nskip * i + k))"
      using rows by (simp add: ldl_row_def)
  next
    fix i j assume "i < n" "j < n"
    then show "A0 ! (nskip * i + j) = A0 ! (nskip * j + i)" using sym by simp
  next
    fix i assume "i < n"
    then show "y ! i = b0 ! i - (\<Sum>k<i. L ! (nskip * i + k) * y ! k)" by (rule yeq)
  next
    fix i assume "i < n"
    then show "1 / d ! i * z ! i = y ! i" using zeq nz by simp
  next
    fix i assume "i < n"
    then show "x ! i = z ! i - (\<Sum>j = i + 1..<n. L ! (nskip * j + i) * x ! j)" by (rule xeq)
  next
    show "i < n" by (rule i)
  qed
  then show ?thesis using xdef by (simp add: L_def d_def)
qed

section \<open>The direct path\<close>

lemma solve_takes_direct:
  assumes "nub \<ge> int n"
  shows "solve opt n nub s = direct_result n s"
  using assms by (simp add: solve_def direct_result_def Let_def split: prod.splits)

text \<open>
  C5. For every call of the pointer-form \<open>solve\<close> with \<open>nub \<ge> n\<close>, the solver takes only the
  direct path: \<open>A\<close> is replaced by its LDLT factorization, \<open>b\<close> by the result of the LDLT
  solve on the factored \<open>A\<close>, and the first \<open>n\<close> entries of \<open>x\<close> by the final contents of
  \<open>b\<close>. No sweep runs (the sweep order and the random source are untouched), nothing is
  projected, and \<open>lo\<close>, \<open>hi\<close>, \<open>findex\<close> and the options are not read: the result is the same
  for any other bounds, friction index and options. The returned \<open>x\<close> solves \<open>A x = b\<close> for
  the \<open>A\<close> and \<open>b\<close> passed in, when \<open>A\<close> is symmetric and the factorization meets no zero
  pivot.
\<close>

theorem direct_path_only:
  assumes "nub \<ge> int n"
  shows "solve opt n nub s = direct_result n s \<and>
         buf_A (solve opt n nub s) = fst (dFactorLDLT (buf_A s) (replicate n 0) n (dPAD n)) \<and>
         buf_b (solve opt n nub s) =
           dSolveLDLT (fst (dFactorLDLT (buf_A s) (replicate n 0) n (dPAD n)))
             (snd (dFactorLDLT (buf_A s) (replicate n 0) n (dPAD n))) (buf_b s) n (dPAD n) \<and>
         buf_x (solve opt n nub s) = take n (buf_b (solve opt n nub s)) @ drop n (buf_x s) \<and>
         mCacheOrder (solve opt n nub s) = mCacheOrder s \<and>
         rand_pos (solve opt n nub s) = rand_pos s \<and>
         solve opt' n nub (s\<lparr>buf_lo := lo', buf_hi := hi', buf_findex := findex'\<rparr>) =
           (solve opt n nub s)\<lparr>buf_lo := lo', buf_hi := hi', buf_findex := findex'\<rparr> \<and>
         (dPAD n * n \<le> length (buf_A s) \<and> n \<le> length (buf_b s) \<and>
          (\<forall>i<n. \<forall>j<n. buf_A s ! (dPAD n * i + j) = buf_A s ! (dPAD n * j + i)) \<and>
          (\<forall>k<n. mCacheD (solve opt n nub s) ! k \<noteq> 0)
          \<longrightarrow> (\<forall>i<n. (\<Sum>j<n. buf_A s ! (dPAD n * i + j) * buf_x (solve opt n nub s) ! j)
                        = buf_b s ! i))"
proof -
  let ?F = "dFactorLDLT (buf_A s) (replicate n 0) n (dPAD n)"
  let ?b = "dSolveLDLT (fst ?F) (snd ?F) (buf_b s) n (dPAD n)"
  have path: "solve opt n nub s = direct_result n s \<and>
         buf_A (solve opt n nub s) = fst ?F \<and>
         buf_b (solve opt n nub s) = ?b \<and>
         buf_x (solve opt n nub s) = take n (buf_b (solve opt n nub s)) @ drop n (buf_x s) \<and>
         mCacheOrder (solve opt n nub s) = mCacheOrder s \<and>
         rand_pos (solve opt n nub s) = rand_pos s \<and>
         solve opt' n nub (s\<lparr>buf_lo := lo', buf_hi := hi', buf_findex := findex'\<rparr>) =
           (solve opt n nub s)\<lparr>buf_lo := lo', buf_hi := hi', buf_findex := findex'\<rparr>"
    using assms by (simp add: solve_takes_direct direct_result_def Let_def)
  have solves: "\<forall>i<n. (\<Sum>j<n. buf_A s ! (dPAD n * i + j) * buf_x (solve opt n nub s) ! j) = buf_b s ! i"
    if h: "dPAD n * n \<le> length (buf_A s)" "n \<le> length (buf_b s)"
      "\<forall>i<n. \<forall>j<n. buf_A s ! (dPAD n * i + j) = buf_A s ! (dPAD n * j + i)"
      "\<forall>k<n. mCacheD (solve opt n nub s) ! k \<noteq> 0"
  proof (intro allI impI)
    fix i assume i: "i < n"
    have d: "mCacheD (solve opt n nub s) = snd ?F"
      using assms by (simp add: solve_takes_direct direct_result_def Let_def)
    have piv: "\<forall>k<n. snd ?F ! k \<noteq> 0" using h(4) d by simp
    have lb: "length ?b = length (buf_b s)" by (rule dSolveLDLT_length[OF h(2)])
    have xj: "buf_x (solve opt n nub s) ! j = ?b ! j" if "j < n" for j
      using that assms lb h(2) by (simp add: solve_takes_direct direct_result_def Let_def nth_append)
    have "(\<Sum>j<n. buf_A s ! (dPAD n * i + j) * buf_x (solve opt n nub s) ! j)
        = (\<Sum>j<n. buf_A s ! (dPAD n * i + j) * ?b ! j)"
      by (rule sum.cong) (simp_all add: xj)
    also have "\<dots> = buf_b s ! i"
      by (rule dSolveLDLT_solves[OF dPAD_ge h(1) _ h(2) h(3) piv i]) simp
    finally show "(\<Sum>j<n. buf_A s ! (dPAD n * i + j) * buf_x (solve opt n nub s) ! j) = buf_b s ! i" .
  qed
  show ?thesis using path solves by blast
qed

theorem direct_path_only_witness:
  "(2::int) \<ge> int 2 \<and>
   buf_x (solve typical_option 2 2
      (mem_of [4, 1, 0, 0, 1, 3, 0, 0] [0, 0] [1, 2] [- 1, - 1] [1, 1] [- 1, - 1])) = [1 / 11, 7 / 11] \<and>
   buf_x (solve typical_option 2 2
      (mem_of [4, 1, 0, 0, 1, 3, 0, 0] [0, 0] [1, 2] [- 1, - 1] [1, 1] [- 1, - 1]))
    = take 2 (buf_b (solve typical_option 2 2
      (mem_of [4, 1, 0, 0, 1, 3, 0, 0] [0, 0] [1, 2] [- 1, - 1] [1, 1] [- 1, - 1])))
      @ drop 2 (buf_x (mem_of [4, 1, 0, 0, 1, 3, 0, 0] [0, 0] [1, 2] [- 1, - 1] [1, 1] [- 1, - 1])) \<and>
   (\<Sum>j<2. buf_A (mem_of [4, 1, 0, 0, 1, 3, 0, 0] [0, 0] [1, 2] [- 1, - 1] [1, 1] [- 1, - 1])
                      ! (dPAD 2 * 0 + j)
                 * buf_x (solve typical_option 2 2
                     (mem_of [4, 1, 0, 0, 1, 3, 0, 0] [0, 0] [1, 2] [- 1, - 1] [1, 1] [- 1, - 1])) ! j)
            = buf_b (mem_of [4, 1, 0, 0, 1, 3, 0, 0] [0, 0] [1, 2] [- 1, - 1] [1, 1] [- 1, - 1]) ! 0 \<and>
   (\<Sum>j<2. buf_A (mem_of [4, 1, 0, 0, 1, 3, 0, 0] [0, 0] [1, 2] [- 1, - 1] [1, 1] [- 1, - 1])
                      ! (dPAD 2 * 1 + j)
                 * buf_x (solve typical_option 2 2
                     (mem_of [4, 1, 0, 0, 1, 3, 0, 0] [0, 0] [1, 2] [- 1, - 1] [1, 1] [- 1, - 1])) ! j)
            = buf_b (mem_of [4, 1, 0, 0, 1, 3, 0, 0] [0, 0] [1, 2] [- 1, - 1] [1, 1] [- 1, - 1]) ! 1"
proof -
  let ?m = "mem_of [4, 1, 0, 0, 1, 3, 0, 0] [0, 0] [1, 2] [- 1, - 1] [1, 1] [- 1, - 1]"
  have h: "(2::int) \<ge> int 2" by simp
  have r2: "replicate 2 (0::real) = [0, 0]"
    by (simp add: numeral_2_eq_2)
  have e: "buf_x (direct_result 2 ?m) = [1 / 11, 7 / 11]"
    and piv: "mCacheD (direct_result 2 ?m) = [1 / 4, 4 / 11]"
    by (simp_all add: r2 direct_result_def mem_of_def dPAD_def dFactorLDLT_def dSolveLDLT_def factor_row_def
        factor_solve_row_def factor_scale_row_def dot_prefix_def dSolveL1_def dSolveL1T_def
        factor_solve_step_def factor_scale_step_def solveL1_step_def solveL1T_step_def
        dVectorScale_def Let_def upt_conv_Cons)
  note t = direct_path_only[OF h, where opt = typical_option and s = ?m and opt' = typical_option
      and lo' = "[]" and hi' = "[]" and findex' = "[]"]
  have a: "solve typical_option 2 2 ?m = direct_result 2 ?m"
    by (rule t[THEN conjunct1])
  have c: "buf_x (solve typical_option 2 2 ?m)
      = take 2 (buf_b (solve typical_option 2 2 ?m)) @ drop 2 (buf_x ?m)"
    by (rule t[THEN conjunct2, THEN conjunct2, THEN conjunct2, THEN conjunct1])
  have x: "buf_x (solve typical_option 2 2 ?m) = [1 / 11, 7 / 11]"
    using a e by simp
  have hyp: "dPAD 2 * 2 \<le> length (buf_A ?m) \<and> 2 \<le> length (buf_b ?m) \<and>
      (\<forall>i<2. \<forall>j<2. buf_A ?m ! (dPAD 2 * i + j) = buf_A ?m ! (dPAD 2 * j + i)) \<and>
      (\<forall>k<2. mCacheD (solve typical_option 2 2 ?m) ! k \<noteq> 0)"
    unfolding a piv by (simp add: mem_of_def dPAD_def less_Suc_eq numeral_2_eq_2)
  have s: "\<forall>i<2. (\<Sum>j<2. buf_A ?m ! (dPAD 2 * i + j) * buf_x (solve typical_option 2 2 ?m) ! j)
            = buf_b ?m ! i"
    using t[THEN conjunct2, THEN conjunct2, THEN conjunct2, THEN conjunct2, THEN conjunct2,
        THEN conjunct2, THEN conjunct2] hyp by blast
  have s0: "(\<Sum>j<2. buf_A ?m ! (dPAD 2 * 0 + j) * buf_x (solve typical_option 2 2 ?m) ! j)
            = buf_b ?m ! 0"
    and s1: "(\<Sum>j<2. buf_A ?m ! (dPAD 2 * 1 + j) * buf_x (solve typical_option 2 2 ?m) ! j)
            = buf_b ?m ! 1"
    using s[rule_format, of 0] s[rule_format, of 1] by simp_all
  show ?thesis using h x c s0 s1 by blast
qed

section \<open>The forward sweep of the matrix form\<close>

lemma lower_solve_prefix:
  assumes "\<forall>i<m. A ! i ! i \<noteq> 0"
  shows "length (fold (lower_solve_step A z) [0..<m] []) = m \<and>
         (\<forall>i<m. (\<Sum>j\<leftarrow>[0..<Suc i]. A ! i ! j * fold (lower_solve_step A z) [0..<m] [] ! j) = z ! i)"
  using assms
proof (induction m)
  case 0
  show ?case by simp
next
  case (Suc m)
  let ?xs = "fold (lower_solve_step A z) [0..<m] []"
  let ?v = "(z ! m - (\<Sum>j\<leftarrow>[0..<m]. A ! m ! j * ?xs ! j)) / A ! m ! m"
  have len: "length ?xs = m"
    and IH: "\<forall>i<m. (\<Sum>j\<leftarrow>[0..<Suc i]. A ! i ! j * ?xs ! j) = z ! i"
    using Suc by simp_all
  have step: "fold (lower_solve_step A z) [0..<Suc m] [] = ?xs @ [?v]"
    by (simp add: lower_solve_step_def)
  have old: "\<And>i. i \<le> m \<Longrightarrow> (\<Sum>j\<leftarrow>[0..<i]. A ! i' ! j * (?xs @ [?v]) ! j)
      = (\<Sum>j\<leftarrow>[0..<i]. A ! i' ! j * ?xs ! j)" for i'
    by (rule arg_cong[where f = sum_list], rule map_cong) (simp_all add: nth_append len)
  have d: "A ! m ! m \<noteq> 0" using Suc.prems by simp
  have "(\<Sum>j\<leftarrow>[0..<Suc i]. A ! i ! j * (?xs @ [?v]) ! j) = z ! i" if "i < Suc m" for i
  proof (cases "i = m")
    case True
    have "(\<Sum>j\<leftarrow>[0..<Suc m]. A ! m ! j * (?xs @ [?v]) ! j)
        = (\<Sum>j\<leftarrow>[0..<m]. A ! m ! j * ?xs ! j) + A ! m ! m * ?v"
      using old[of m m] by (simp add: nth_append len)
    also have "\<dots> = z ! m" using d by simp
    finally show ?thesis using True by simp
  next
    case False
    then have im: "i < m" using that by simp
    then have "(\<Sum>j\<leftarrow>[0..<Suc i]. A ! i ! j * (?xs @ [?v]) ! j)
        = (\<Sum>j\<leftarrow>[0..<Suc i]. A ! i ! j * ?xs ! j)"
      using old[of "Suc i" i] by simp
    then show ?thesis using IH im by simp
  qed
  then show ?case using step len by simp
qed

text \<open>
  What \<open>sweepForward\<close> computes, for every square \<open>A\<close> with nonzero diagonal and every
  \<open>x\<close>, \<open>b\<close>: the solution of \<open>(L + D) x_new = -(U x_old) - b\<close>. The right-hand side starts
  from \<open>mCacheZ = -b\<close>, so \<open>b\<close> enters with the opposite sign of the sweep equation.
\<close>

lemma sweepForward_solves:
  assumes "length b = length x" and "\<forall>i<length x. A ! i ! i \<noteq> 0"
  shows "length (sweepForward A x b) = length x \<and>
     (\<forall>i<length x.
        (\<Sum>j\<leftarrow>[0..<Suc i]. A ! i ! j * sweepForward A x b ! j)
          = - (\<Sum>j\<leftarrow>[i + 1..<length x]. A ! i ! j * x ! j) - b ! i)"
proof -
  let ?z = "sweep_mCacheZ A x b"
  have lz: "length ?z = length x" by (simp add: sweep_mCacheZ_def)
  have zi: "\<And>i. i < length x \<Longrightarrow> ?z ! i = - (\<Sum>j\<leftarrow>[i + 1..<length x]. A ! i ! j * x ! j) - b ! i"
    by (simp add: sweep_mCacheZ_def strictlyUpper_times_def)
  from lower_solve_prefix[of "length x" A ?z] assms(2) lz zi show ?thesis
    by (simp add: sweepForward_def lower_solve_def)
qed

text \<open>
  C1. The sweep equation of the matrix form is \<open>(L + D) x_new = -(U x_old) + b\<close>. On
  \<open>A = [[1]]\<close>, \<open>x = [0]\<close>, \<open>b = [1]\<close> the equation asks for \<open>x_new = [1]\<close>;
  \<open>sweepForward\<close> returns \<open>[-1]\<close>, which does not satisfy it.
\<close>

theorem sweepForward_sign:
  "sweepForward [[1]] [0] [1] = [- 1] \<and>
   (\<Sum>j\<leftarrow>[0..<Suc 0]. [[1]] ! 0 ! j * sweepForward [[1]] [0] [1] ! j)
     \<noteq> - (\<Sum>j\<leftarrow>[0 + 1..<length [0 :: real]]. [[1]] ! 0 ! j * [0] ! j) + [1] ! 0"
  by (simp add: sweepForward_def lower_solve_def lower_solve_step_def sweep_mCacheZ_def
      strictlyUpper_times_def)

section \<open>Loops that can fail\<close>

lemma fold_ok_append:
  "fold_ok f (xs @ ys) s = (case fold_ok f xs s of Inl e \<Rightarrow> Inl e | Inr t \<Rightarrow> fold_ok f ys t)"
  by (induction xs arbitrary: s) (simp_all split: sum.splits)

lemma fold_ok_pure:
  assumes "fold_ok f xs s = Inr t" and "\<And>a u v. f a u = Inr v \<Longrightarrow> v = g a u"
  shows "t = fold g xs s"
  using assms(1)
proof (induction xs arbitrary: s)
  case Nil
  then show ?case by simp
next
  case (Cons a xs)
  then obtain v where v: "f a s = Inr v" "fold_ok f xs v = Inr t"
    by (auto split: sum.splits)
  then show ?case using Cons.IH[OF v(2)] assms(2)[OF v(1)] by simp
qed

lemma fold_ok_all:
  assumes "\<And>a u. f a u = Inr (g a u)"
  shows "fold_ok f xs s = Inr (fold g xs s)"
  by (induction xs arbitrary: s) (simp_all add: assms)

lemma fold_ok_snoc:
  assumes "fold_ok f (xs @ [a]) s = Inr t"
  shows "\<exists>u. fold_ok f xs s = Inr u \<and> f a u = Inr t"
  using assms by (auto simp: fold_ok_append split: sum.splits)

section \<open>The offsets\<close>

lemma offset_of_mono:
  assumes "c < i" "i \<le> length grp"
  shows "offset_of grp c + getDimension (grp ! c) \<le> offset_of grp i"
proof -
  have "take i grp = take (Suc c) grp @ drop (Suc c) (take i grp)"
    using assms by (metis Suc_leI append_take_drop_id min.absorb2 take_take min.commute)
  then have "offset_of grp i = offset_of grp (Suc c) + sum_list (map getDimension (drop (Suc c) (take i grp)))"
    unfolding offset_of_def by (metis map_append sum_list_append)
  moreover have "offset_of grp (Suc c) = offset_of grp c + getDimension (grp ! c)"
    using assms by (simp add: offset_of_def take_Suc_conv_app_nth)
  ultimately show ?thesis by simp
qed

lemma offset_of_total:
  assumes "c < length grp"
  shows "offset_of grp c + getDimension (grp ! c) \<le> getTotalDimension grp"
proof -
  have "offset_of grp (length grp) = getTotalDimension grp"
    by (simp add: offset_of_def getTotalDimension_def)
  then show ?thesis
    using offset_of_mono[of c "length grp" grp] assms by simp
qed

lemma positive_dimensions:
  assumes "\<forall>c\<in>set grp. 0 < getDimension c"
  shows "length grp \<le> getTotalDimension grp"
  using assms unfolding getTotalDimension_def
proof (induction grp)
  case Nil
  show ?case by simp
next
  case (Cons a grp)
  then have "0 < getDimension a" "length grp \<le> sum_list (map getDimension grp)" by simp_all
  then show ?case by simp
qed

lemma compute_offsets_prefix:
  assumes "fold_ok (offset_round debug grp n) [1..<m] (offset0[0 := 0]) = Inr offset"
    and "length offset0 = n" and "0 < n" and "m \<le> length grp" and "0 < m"
  shows "length offset = n \<and> m \<le> n \<and> (\<forall>i<m. offset ! i = offset_of grp i)"
  using assms(1,4,5)
proof (induction m arbitrary: offset)
  case 0
  then show ?case by simp
next
  case (Suc m)
  show ?case
  proof (cases "m = 0")
    case True
    then have "offset = offset0[0 := 0]" using Suc.prems(1) by simp
    then show ?thesis using True assms(2,3) by (cases offset0) (simp_all add: offset_of_def)
  next
    case False
    then have m: "0 < m" "m \<le> length grp" using Suc.prems by simp_all
    have "[1..<Suc m] = [1..<m] @ [m]" using m(1) by simp
    then obtain o' where o': "fold_ok (offset_round debug grp n) [1..<m] (offset0[0 := 0]) = Inr o'"
      and st: "offset_round debug grp n m o' = Inr offset"
      using Suc.prems(1) fold_ok_snoc[of "offset_round debug grp n" "[1..<m]" m "offset0[0 := 0]" offset]
      by auto
    have len: "length o' = n" and IH: "\<forall>i<m. o' ! i = offset_of grp i"
      using Suc.IH[OF o' m(2) m(1)] by simp_all
    have ml: "m < n" and off: "offset = o'[m := o' ! (m - 1) + getDimension (grp ! (m - 1))]"
      using st by (auto simp: offset_round_def split: if_splits)
    have tk: "take m grp = take (m - 1) grp @ [grp ! (m - 1)]"
      using m Suc.prems(2) by (metis Suc_diff_1 Suc_le_lessD less_imp_diff_less take_Suc_conv_app_nth)
    have new: "o' ! (m - 1) + getDimension (grp ! (m - 1)) = offset_of grp m"
      using IH m(1) by (simp add: offset_of_def tk)
    show ?thesis
      using IH new len ml m(1) by (auto simp: off less_Suc_eq)
  qed
qed

lemma compute_offsets_nth:
  assumes "compute_offsets debug grp n offset0 = Inr offset"
    and "length offset0 = n" and "0 < n" and "i < length grp"
  shows "offset ! i = offset_of grp i"
proof -
  have "0 < length grp" using assms(4) by linarith
  from compute_offsets_prefix[OF assms(1)[unfolded compute_offsets_def] assms(2,3) order_refl this] assms(4)
  show ?thesis by simp
qed

lemma compute_offsets_release_prefix:
  assumes "m \<le> n"
  shows "\<exists>offset. fold_ok (offset_round False grp n) [1..<m] (offset0[0 := 0]) = Inr offset"
  using assms
proof (induction m)
  case 0
  show ?case by simp
next
  case (Suc m)
  show ?case
  proof (cases "m = 0")
    case True
    then show ?thesis by simp
  next
    case False
    then have a: "[1..<Suc m] = [1..<m] @ [m]" by simp
    obtain o' where o': "fold_ok (offset_round False grp n) [1..<m] (offset0[0 := 0]) = Inr o'"
      using Suc.IH Suc.prems by auto
    have ml: "m < n" using Suc.prems by simp
    have "fold_ok (offset_round False grp n) [1..<Suc m] (offset0[0 := 0])
        = (case fold_ok (offset_round False grp n) [1..<m] (offset0[0 := 0]) of
             Inl e \<Rightarrow> Inl e | Inr t \<Rightarrow> fold_ok (offset_round False grp n) [m] t)"
      by (simp only: a fold_ok_append)
    also have "\<dots> = fold_ok (offset_round False grp n) [m] o'"
      by (simp only: o' sum.case)
    also have "\<dots> = Inr (o'[m := o' ! (m - 1) + getDimension (grp ! (m - 1))])"
      using ml by (simp add: offset_round_def)
    finally show ?thesis by blast
  qed
qed

lemma compute_offsets_release:
  assumes "length grp \<le> n"
  shows "\<exists>offset. compute_offsets False grp n offset0 = Inr offset"
  using compute_offsets_release_prefix[OF assms, of grp offset0] by (auto simp: compute_offsets_def)

section \<open>The rounds of the assembly\<close>

lemma assemble_constraint_Inr:
  assumes "assemble_constraint debug mTimeStep grp n nSkip i s = Inr t"
  shows "t = assemble_round mTimeStep grp nSkip i s"
  using assms by (auto simp: assemble_constraint_def assemble_round_def Let_def split: if_splits)

lemma assemble_constraint_release:
  "assemble_constraint False mTimeStep grp n nSkip i s = Inr (assemble_round mTimeStep grp nSkip i s)"
  by (simp add: assemble_constraint_def assemble_round_def Let_def)

lemma assemble_rounds_Inr:
  assumes "assemble_rounds debug mTimeStep grp alloc offset0 world m = Inr t"
  shows "\<exists>offset. compute_offsets debug grp (getTotalDimension grp) offset0 = Inr offset \<and>
           t = fold (assemble_round mTimeStep grp (dPAD (getTotalDimension grp))) [0..<m]
                 (assemble_start debug grp alloc offset world)"
proof (cases "compute_offsets debug grp (getTotalDimension grp) offset0")
  case (Inl e)
  then show ?thesis using assms by (simp add: assemble_rounds_def Let_def)
next
  case (Inr offset)
  then have "fold_ok (assemble_constraint debug mTimeStep grp (getTotalDimension grp)
                 (dPAD (getTotalDimension grp))) [0..<m]
               (assemble_start debug grp alloc offset world) = Inr t"
    using assms by (simp add: assemble_rounds_def Let_def assemble_start_def)
  then have "t = fold (assemble_round mTimeStep grp (dPAD (getTotalDimension grp))) [0..<m]
                 (assemble_start debug grp alloc offset world)"
    by (rule fold_ok_pure) (rule assemble_constraint_Inr)
  then show ?thesis using Inr by simp
qed

lemma assemble_rounds_prefix:
  assumes "assemble_rounds debug mTimeStep grp alloc offset0 world m = Inr t" and "k \<le> m"
  shows "\<exists>u. assemble_rounds debug mTimeStep grp alloc offset0 world k = Inr u"
proof (cases "compute_offsets debug grp (getTotalDimension grp) offset0")
  case (Inl e)
  then show ?thesis using assms by (simp add: assemble_rounds_def Let_def)
next
  case (Inr offset)
  have "[0..<m] = [0..<k] @ [k..<m]" using assms(2) by (metis le_add_diff_inverse upt_add_eq_append zero_le)
  then show ?thesis
    using assms(1) Inr by (auto simp: assemble_rounds_def Let_def fold_ok_append split: sum.splits)
qed

lemma assemble_Inr:
  assumes "assemble debug mTimeStep grp alloc offset0 world = Inr t"
  shows "assemble_rounds debug mTimeStep grp alloc offset0 world (length grp) = Inr t"
  using assms by (auto simp: assemble_def split: sum.splits if_splits)

lemma assemble_release:
  assumes "length grp \<le> getTotalDimension grp"
  shows "\<exists>t. assemble False mTimeStep grp alloc offset0 world = Inr t"
proof -
  obtain offset where "compute_offsets False grp (getTotalDimension grp) offset0 = Inr offset"
    using compute_offsets_release[OF assms] by auto
  then show ?thesis
    by (simp add: assemble_def assemble_rounds_def Let_def
        fold_ok_all[where g = "assemble_round mTimeStep grp (dPAD (getTotalDimension grp))"]
        assemble_constraint_release)
qed

lemma solveConstrainedGroup_Inr:
  assumes "0 < getTotalDimension grp"
    and "solveConstrainedGroup boxedLcpSolver debug mTimeStep grp alloc offset0 world = Inr r"
  shows "\<exists>solver s1. boxedLcpSolver = Some solver \<and>
           assemble debug mTimeStep grp alloc offset0 world = Inr s1 \<and>
           r = fold (apply_constraint_impulse grp) [0..<length grp]
                 (log_call SolveLcp (s1\<lparr>gs_mem := solver (getTotalDimension grp) 0 (gs_mem s1)\<rparr>))"
  using assms by (auto simp: solveConstrainedGroup_def Let_def split: sum.splits option.splits)

text \<open>
  A release build returns whenever the array of offsets has room for every constraint, as
  it has when every dimension is positive.
\<close>

lemma solveConstrainedGroup_returns:
  assumes "\<forall>c\<in>set grp. 0 < getDimension c"
  shows "\<exists>r. solveConstrainedGroup (Some solver) False mTimeStep grp alloc offset0 world = Inr r"
proof -
  have "length grp \<le> getTotalDimension grp"
    by (rule positive_dimensions[OF assms])
  then obtain t where "assemble False mTimeStep grp alloc offset0 world = Inr t"
    using assemble_release[of grp mTimeStep alloc offset0 world] by blast
  then show ?thesis by (simp add: solveConstrainedGroup_def Let_def)
qed

lemma solveConstrainedGroup_isl:
  assumes "0 < getTotalDimension grp"
  shows "isl (solveConstrainedGroup (Some solver) debug mTimeStep grp alloc offset0 world)
         = isl (assemble debug mTimeStep grp alloc offset0 world)"
  using assms by (simp add: solveConstrainedGroup_def Let_def split: sum.splits)

lemma assemble_rounds_start:
  "assemble_rounds debug mTimeStep grp alloc offset0 world m =
     (case compute_offsets debug grp (getTotalDimension grp) offset0 of
        Inl e \<Rightarrow> Inl e
      | Inr offset \<Rightarrow>
          fold_ok (assemble_constraint debug mTimeStep grp (getTotalDimension grp)
                     (dPAD (getTotalDimension grp))) [0..<m]
            (assemble_start debug grp alloc offset world))"
  by (simp add: assemble_rounds_def assemble_start_def Let_def split: sum.splits)

section \<open>The calls made on the constraints of a group\<close>

lemma fold_calls_append:
  assumes "\<And>a t. F (f a t) = F t @ g a"
  shows "F (fold f xs s) = F s @ concat (map g xs)"
  using assms by (induction xs arbitrary: s) simp_all

lemma concat_single_upt:
  "concat (map (\<lambda>i. if i = c then T else []) [0..<m]) = (if c < m then T else [])"
  by (induction m) auto

lemma concat_none:
  "concat (map (\<lambda>i. []) xs) = []"
  by (induction xs) auto

lemma trace_getVelocityChange:
  "trace c (call_getVelocityChange grp k index withBias s) = trace c s"
  by (simp add: call_getVelocityChange_def log_call_def about_def Let_def split: prod.splits)

lemma mirror_block_calls:
  "gs_calls (mirror_block grp nSkip i j k s) = gs_calls s \<and>
   gs_world (mirror_block grp nSkip i j k s) = gs_world s"
  unfolding mirror_block_def
  by (rule fold_preserves[where P = "\<lambda>t. gs_calls t = gs_calls s \<and> gs_world t = gs_world s"])
     (simp_all add: Let_def)

lemma mirror_blocks_calls:
  "gs_calls (fold (mirror_block grp nSkip i j) ks s) = gs_calls s \<and>
   gs_world (fold (mirror_block grp nSkip i j) ks s) = gs_world s"
  by (rule fold_preserves[where P = "\<lambda>t. gs_calls t = gs_calls s \<and> gs_world t = gs_world s"])
     (simp_all add: mirror_block_calls)

lemma trace_impulse_test:
  "trace c (impulse_test grp nSkip i j s) = trace c s @ (if i = c then [ApplyUnitImpulse c j] else [])"
proof -
  let ?m = "gs_mem s"
  let ?off = "gs_offset s ! i"
  define s1 where "s1 = (if buf_findex ?m ! (?off + j) \<ge> 0
                then s\<lparr>gs_mem := ?m\<lparr>buf_findex :=
                        (buf_findex ?m)[?off + j := buf_findex ?m ! (?off + j) + int ?off]\<rparr>\<rparr>
                else s)"
  define s2 where "s2 = log_call (ApplyUnitImpulse i j) (s1\<lparr>gs_world := applyUnitImpulse (grp ! i) j (gs_world s1)\<rparr>)"
  define s3 where "s3 = call_getVelocityChange grp i (nSkip * (?off + j) + ?off) True s2"
  define s4 where "s4 = fold (\<lambda>k s. call_getVelocityChange grp k (nSkip * (gs_offset s ! i + j) + gs_offset s ! k) False s)
                 [i + 1..<length grp] s3"
  have r: "impulse_test grp nSkip i j s = fold (mirror_block grp nSkip i j) [0..<i] s4"
    by (simp add: impulse_test_def Let_def s1_def s2_def s3_def s4_def)
  have c1: "gs_calls s1 = gs_calls s" by (simp add: s1_def)
  have t2: "trace c s2 = trace c s @ (if i = c then [ApplyUnitImpulse c j] else [])"
    by (simp add: s2_def log_call_def c1 about_def)
  have t3: "trace c s3 = trace c s2" by (simp add: s3_def trace_getVelocityChange)
  have t4: "trace c s4 = trace c s3"
    unfolding s4_def
    by (rule fold_preserves[where P = "\<lambda>t. trace c t = trace c s3"])
       (simp_all add: trace_getVelocityChange)
  show ?thesis using r t2 t3 t4 by (simp add: mirror_blocks_calls)
qed

lemma trace_getInformation:
  "trace c (call_getInformation mTimeStep grp i s) = trace c s"
  by (simp add: call_getInformation_def log_call_def about_def Let_def split: prod.splits)

lemma trace_assemble_round:
  "trace c (assemble_round mTimeStep grp nSkip i s) =
     trace c s @ (if i = c then Excite c # map (ApplyUnitImpulse c) [0..<getDimension (grp ! c)] @ [Unexcite c]
                  else [])"
proof -
  define s1 where "s1 = call_getInformation mTimeStep grp i s"
  define s2 where "s2 = log_call (Excite i) (s1\<lparr>gs_world := excite (grp ! i) (gs_world s1)\<rparr>)"
  define s3 where "s3 = fold (impulse_test grp nSkip i) [0..<getDimension (grp ! i)] s2"
  have r: "assemble_round mTimeStep grp nSkip i s =
      log_call (Unexcite i) (s3\<lparr>gs_world := unexcite (grp ! i) (gs_world s3)\<rparr>)"
    by (simp add: assemble_round_def fill_constraint_def Let_def s1_def s2_def s3_def)
  have t2: "trace c s2 = trace c s @ (if i = c then [Excite c] else [])"
    by (simp add: s2_def s1_def log_call_def about_def trace_getInformation)
  have t3: "trace c s3 = trace c s2 @
      concat (map (\<lambda>j. if i = c then [ApplyUnitImpulse c j] else []) [0..<getDimension (grp ! i)])"
    unfolding s3_def
    by (rule fold_calls_append[where F = "trace c"]) (rule trace_impulse_test)
  have cc: "concat (map (\<lambda>j. if i = c then [ApplyUnitImpulse c j] else []) [0..<getDimension (grp ! i)])
      = (if i = c then map (ApplyUnitImpulse c) [0..<getDimension (grp ! c)] else [])"
    by (induction "getDimension (grp ! i)") (auto simp: concat_none map_upt_Suc simp del: upt_Suc)
  show ?thesis
    using r t2 t3 cc by (simp add: log_call_def about_def)
qed

lemma fold_calls_append_inv:
  assumes "I s" and "\<And>a t. I t \<Longrightarrow> I (f a t) \<and> F (f a t) = F t @ g a"
  shows "F (fold f xs s) = F s @ concat (map g xs)"
  using assms by (induction xs arbitrary: s) simp_all

lemma trace_rounds:
  "trace c (fold (assemble_round mTimeStep grp nSkip) [0..<length grp] s0) =
     trace c s0 @
     (if c < length grp
      then Excite c # map (ApplyUnitImpulse c) [0..<getDimension (grp ! c)] @ [Unexcite c]
      else [])"
proof -
  let ?T = "Excite c # map (ApplyUnitImpulse c) [0..<getDimension (grp ! c)] @ [Unexcite c]"
  have "trace c (fold (assemble_round mTimeStep grp nSkip) [0..<length grp] s0)
      = trace c s0 @ concat (map (\<lambda>i. if i = c then ?T else []) [0..<length grp])"
    by (rule fold_calls_append[where F = "trace c"]) (rule trace_assemble_round)
  then show ?thesis
    by (simp add: concat_single_upt)
qed

lemma apply_constraint_impulse_effect:
  "gs_mem (apply_constraint_impulse grp i s) = gs_mem s \<and>
   gs_offset (apply_constraint_impulse grp i s) = gs_offset s \<and>
   trace c (apply_constraint_impulse grp i s) = trace c s @
     (if i = c then [ApplyImpulse c (slice (gs_offset s ! c) (getDimension (grp ! c)) (buf_x (gs_mem s))),
                     Excite c]
      else [])"
  by (simp add: apply_constraint_impulse_def log_call_def about_def Let_def)

lemma apply_loop_frame:
  "gs_mem (fold (apply_constraint_impulse grp) xs s) = gs_mem s \<and>
   gs_offset (fold (apply_constraint_impulse grp) xs s) = gs_offset s"
  by (rule fold_preserves[where P = "\<lambda>t. gs_mem t = gs_mem s \<and> gs_offset t = gs_offset s"])
     (simp_all add: apply_constraint_impulse_effect)

lemma trace_apply_loop:
  assumes "c < length grp"
  shows "trace c (fold (apply_constraint_impulse grp) [0..<length grp] s) =
     trace c s @ [ApplyImpulse c (slice (gs_offset s ! c) (getDimension (grp ! c)) (buf_x (gs_mem s))),
                  Excite c]"
proof -
  let ?lam = "slice (gs_offset s ! c) (getDimension (grp ! c)) (buf_x (gs_mem s))"
  have "trace c (fold (apply_constraint_impulse grp) [0..<length grp] s)
      = trace c s @ concat (map (\<lambda>i. if i = c then [ApplyImpulse c ?lam, Excite c] else []) [0..<length grp])"
  proof (rule fold_calls_append_inv[where F = "trace c"
        and I = "\<lambda>t. gs_mem t = gs_mem s \<and> gs_offset t = gs_offset s"])
    show "gs_mem s = gs_mem s \<and> gs_offset s = gs_offset s" by simp
  next
    fix a and t :: "'a group_state"
    assume "gs_mem t = gs_mem s \<and> gs_offset t = gs_offset s"
    then show "(gs_mem (apply_constraint_impulse grp a t) = gs_mem s \<and>
         gs_offset (apply_constraint_impulse grp a t) = gs_offset s) \<and>
        trace c (apply_constraint_impulse grp a t) =
        trace c t @ (if a = c then [ApplyImpulse c ?lam, Excite c] else [])"
      using apply_constraint_impulse_effect[of grp a t c] by simp
  qed
  then show ?thesis using assms by (simp add: concat_single_upt)
qed

section \<open>The world is what the calls make of it\<close>

lemma replayed_step:
  assumes "replayed grp w0 s" and "gs_calls t = gs_calls s @ [e]"
    and "gs_world t = replay grp e (gs_world s)"
  shows "replayed grp w0 t"
  using assms by (simp add: replayed_def)

lemma replayed_frame:
  assumes "replayed grp w0 s" and "gs_calls t = gs_calls s" and "gs_world t = gs_world s"
  shows "replayed grp w0 t"
  using assms by (simp add: replayed_def)

lemma replayed_getInformation:
  assumes "replayed grp w0 s"
  shows "replayed grp w0 (call_getInformation mTimeStep grp i s)"
  by (rule replayed_step[OF assms, where e = "GetInformation i (constInfo mTimeStep grp i s)"])
     (simp_all add: call_getInformation_def log_call_def replay_def Let_def split: prod.splits)

lemma replayed_getVelocityChange:
  assumes "replayed grp w0 s"
  shows "replayed grp w0 (call_getVelocityChange grp k index withBias s)"
  by (rule replayed_step[OF assms, where e = "GetVelocityChange k withBias"])
     (simp_all add: call_getVelocityChange_def log_call_def replay_def Let_def split: prod.splits)

lemma replayed_impulse_test:
  assumes "replayed grp w0 s"
  shows "replayed grp w0 (impulse_test grp nSkip i j s)"
proof -
  let ?m = "gs_mem s"
  let ?off = "gs_offset s ! i"
  define s1 where "s1 = (if buf_findex ?m ! (?off + j) \<ge> 0
                then s\<lparr>gs_mem := ?m\<lparr>buf_findex :=
                        (buf_findex ?m)[?off + j := buf_findex ?m ! (?off + j) + int ?off]\<rparr>\<rparr>
                else s)"
  define s2 where "s2 = log_call (ApplyUnitImpulse i j) (s1\<lparr>gs_world := applyUnitImpulse (grp ! i) j (gs_world s1)\<rparr>)"
  define s3 where "s3 = call_getVelocityChange grp i (nSkip * (?off + j) + ?off) True s2"
  define s4 where "s4 = fold (\<lambda>k s. call_getVelocityChange grp k (nSkip * (gs_offset s ! i + j) + gs_offset s ! k) False s)
                 [i + 1..<length grp] s3"
  have r: "impulse_test grp nSkip i j s = fold (mirror_block grp nSkip i j) [0..<i] s4"
    by (simp add: impulse_test_def Let_def s1_def s2_def s3_def s4_def)
  have p1: "replayed grp w0 s1"
    by (rule replayed_frame[OF assms]) (simp_all add: s1_def)
  have p2: "replayed grp w0 s2"
    by (rule replayed_step[OF p1, where e = "ApplyUnitImpulse i j"])
       (simp_all add: s2_def log_call_def replay_def)
  have p3: "replayed grp w0 s3" unfolding s3_def by (rule replayed_getVelocityChange[OF p2])
  have p4: "replayed grp w0 s4"
    unfolding s4_def
    by (rule fold_preserves[where P = "replayed grp w0"]) (simp_all add: p3 replayed_getVelocityChange)
  show ?thesis
    unfolding r by (rule replayed_frame[OF p4]) (simp_all add: mirror_blocks_calls)
qed

lemma replayed_assemble_round:
  assumes "replayed grp w0 s"
  shows "replayed grp w0 (assemble_round mTimeStep grp nSkip i s)"
proof -
  define s1 where "s1 = call_getInformation mTimeStep grp i s"
  define s2 where "s2 = log_call (Excite i) (s1\<lparr>gs_world := excite (grp ! i) (gs_world s1)\<rparr>)"
  define s3 where "s3 = fold (impulse_test grp nSkip i) [0..<getDimension (grp ! i)] s2"
  have r: "assemble_round mTimeStep grp nSkip i s =
      log_call (Unexcite i) (s3\<lparr>gs_world := unexcite (grp ! i) (gs_world s3)\<rparr>)"
    by (simp add: assemble_round_def fill_constraint_def Let_def s1_def s2_def s3_def)
  have p1: "replayed grp w0 s1" unfolding s1_def by (rule replayed_getInformation[OF assms])
  have p2: "replayed grp w0 s2"
    by (rule replayed_step[OF p1, where e = "Excite i"]) (simp_all add: s2_def log_call_def replay_def)
  have p3: "replayed grp w0 s3"
    unfolding s3_def
    by (rule fold_preserves[where P = "replayed grp w0"]) (simp_all add: p2 replayed_impulse_test)
  show ?thesis
    unfolding r
    by (rule replayed_step[OF p3, where e = "Unexcite i"]) (simp_all add: log_call_def replay_def)
qed

lemma replayed_apply_constraint_impulse:
  assumes "replayed grp w0 s"
  shows "replayed grp w0 (apply_constraint_impulse grp i s)"
proof -
  let ?lam = "slice (gs_offset s ! i) (getDimension (grp ! i)) (buf_x (gs_mem s))"
  define s1 where "s1 = log_call (ApplyImpulse i ?lam) (s\<lparr>gs_world := applyImpulse (grp ! i) ?lam (gs_world s)\<rparr>)"
  have r: "apply_constraint_impulse grp i s = log_call (Excite i) (s1\<lparr>gs_world := excite (grp ! i) (gs_world s1)\<rparr>)"
    by (simp add: apply_constraint_impulse_def Let_def s1_def)
  have p1: "replayed grp w0 s1"
    by (rule replayed_step[OF assms, where e = "ApplyImpulse i ?lam"])
       (simp_all add: s1_def log_call_def replay_def)
  show ?thesis
    unfolding r
    by (rule replayed_step[OF p1, where e = "Excite i"]) (simp_all add: log_call_def replay_def)
qed

lemma replayed_run:
  assumes "replayed grp w0 s0"
  shows "replayed grp w0
           (fold (apply_constraint_impulse grp) xs
              (log_call SolveLcp
                 ((fold (assemble_round mTimeStep grp nSkip) ys s0)\<lparr>gs_mem := M\<rparr>)))"
proof -
  let ?s1 = "fold (assemble_round mTimeStep grp nSkip) ys s0"
  have p1: "replayed grp w0 ?s1"
    by (rule fold_preserves[where P = "replayed grp w0"]) (simp_all add: assms replayed_assemble_round)
  have p2: "replayed grp w0 (log_call SolveLcp (?s1\<lparr>gs_mem := M\<rparr>))"
    by (rule replayed_step[OF p1, where e = SolveLcp]) (simp_all add: log_call_def replay_def)
  show ?thesis
    by (rule fold_preserves[where P = "replayed grp w0"])
       (simp_all add: p2 replayed_apply_constraint_impulse)
qed

lemma apply_loop_excited:
  assumes "\<forall>w. E (excite (grp ! c) w)"
    and "\<forall>k l w. c < k \<and> k < length grp \<and> E w \<longrightarrow>
           E (applyImpulse (grp ! k) l w) \<and> E (excite (grp ! k) w)"
    and "m \<le> length grp" and "c < m"
  shows "E (gs_world (fold (apply_constraint_impulse grp) [0..<m] s))"
  using assms(3,4)
proof (induction m)
  case 0
  then show ?case by simp
next
  case (Suc m)
  let ?t = "fold (apply_constraint_impulse grp) [0..<m] s"
  let ?lam = "slice (gs_offset ?t ! m) (getDimension (grp ! m)) (buf_x (gs_mem ?t))"
  have w: "gs_world (fold (apply_constraint_impulse grp) [0..<Suc m] s)
      = excite (grp ! m) (applyImpulse (grp ! m) ?lam (gs_world ?t))"
    by (simp add: apply_constraint_impulse_def log_call_def Let_def)
  show ?case
  proof (cases "m = c")
    case True
    then show ?thesis using assms(1) w by simp
  next
    case False
    then have cm: "c < m" "m < length grp" using Suc.prems by simp_all
    then have "E (gs_world ?t)" using Suc.IH by simp
    then have "E (applyImpulse (grp ! m) ?lam (gs_world ?t))" using assms(2) cm by blast
    then have "E (excite (grp ! m) (applyImpulse (grp ! m) ?lam (gs_world ?t)))"
      using assms(2) cm by blast
    then show ?thesis using w by simp
  qed
qed

text \<open>
  C9. For every group with total dimension \<open>n > 0\<close> and every constraint \<open>c\<close> of it, when
  \<open>solveConstrainedGroup\<close> returns (no assertion of a debug build fails, the array of offsets
  is not overrun and the solver pointer is not null), the calls that concern \<open>c\<close> are, in
  this order: \<open>excite\<close>, the unit-impulse probes of its rows, \<open>unexcite\<close> (once each, during
  assembly), then the call of the solver, then \<open>applyImpulse\<close> with its slice of the solved
  \<open>x\<close>, then \<open>excite\<close> once more with no matching \<open>unexcite\<close>. The world the call leaves
  is the one these calls, and the other calls of the log, make of the world it started in.
  So every constraint is left excited, whatever state it arrived in: a property \<open>E\<close> of the
  world that \<open>excite\<close> of \<open>c\<close> establishes, and that \<open>applyImpulse\<close> and \<open>excite\<close> of the later
  constraints keep, holds when the call returns.
\<close>

theorem excite_unexcite_protocol:
  assumes "0 < getTotalDimension grp" and "c < length grp"
    and "solveConstrainedGroup boxedLcpSolver debug mTimeStep grp alloc offset0 world = Inr r"
  shows "filter (about c) (gs_calls r)
         = Excite c # map (ApplyUnitImpulse c) [0..<getDimension (grp ! c)] @
           [Unexcite c, SolveLcp,
            ApplyImpulse c (slice (gs_offset r ! c) (getDimension (grp ! c)) (buf_x (gs_mem r))),
            Excite c] \<and>
         gs_world r = fold (replay grp) (gs_calls r) world \<and>
         ((\<forall>w. E (excite (grp ! c) w)) \<and>
          (\<forall>k l w. c < k \<and> k < length grp \<and> E w \<longrightarrow>
             E (applyImpulse (grp ! k) l w) \<and> E (excite (grp ! k) w)) \<longrightarrow>
          E (gs_world r))"
proof -
  let ?n = "getTotalDimension grp"
  from solveConstrainedGroup_Inr[OF assms(1,3)]
  obtain solver s1 where "boxedLcpSolver = Some solver"
    and s1: "assemble debug mTimeStep grp alloc offset0 world = Inr s1"
    and r: "r = fold (apply_constraint_impulse grp) [0..<length grp]
                 (log_call SolveLcp (s1\<lparr>gs_mem := solver ?n 0 (gs_mem s1)\<rparr>))"
    by (elim exE conjE)
  obtain offset where s1': "s1 = fold (assemble_round mTimeStep grp (dPAD ?n)) [0..<length grp]
                 (assemble_start debug grp alloc offset world)"
    using assemble_rounds_Inr[OF assemble_Inr[OF s1]] by blast
  let ?s2 = "log_call SolveLcp (s1\<lparr>gs_mem := solver ?n 0 (gs_mem s1)\<rparr>)"
  have t2: "trace c ?s2 = Excite c # map (ApplyUnitImpulse c) [0..<getDimension (grp ! c)] @ [Unexcite c, SolveLcp]"
    using assms(2) trace_rounds[of c mTimeStep grp "dPAD ?n" "assemble_start debug grp alloc offset world"]
    by (simp add: s1' log_call_def about_def assemble_start_def)
  have fr: "gs_mem r = gs_mem ?s2" "gs_offset r = gs_offset ?s2"
    unfolding r using apply_loop_frame[of grp "[0..<length grp]" ?s2] by simp_all
  have tr: "trace c r = Excite c # map (ApplyUnitImpulse c) [0..<getDimension (grp ! c)] @
           [Unexcite c, SolveLcp,
            ApplyImpulse c (slice (gs_offset r ! c) (getDimension (grp ! c)) (buf_x (gs_mem r))),
            Excite c]"
    using trace_apply_loop[OF assms(2), of ?s2] t2 fr by (simp add: r[symmetric])
  have "replayed grp world (assemble_start debug grp alloc offset world)"
    by (simp add: replayed_def assemble_start_def)
  then have "replayed grp world r"
    unfolding r s1' by (rule replayed_run)
  then have wr: "gs_world r = fold (replay grp) (gs_calls r) world"
    by (simp add: replayed_def)
  have ex: "E (gs_world r)"
    if "\<forall>w. E (excite (grp ! c) w)"
      and "\<forall>k l w. c < k \<and> k < length grp \<and> E w \<longrightarrow>
             E (applyImpulse (grp ! k) l w) \<and> E (excite (grp ! k) w)"
    unfolding r by (rule apply_loop_excited[OF that order_refl assms(2)])
  show ?thesis using tr wr ex by blast
qed

section \<open>The impulse vector at the call of the solver\<close>

lemma write_slice_length: "length (write_slice off len vals xs) = length xs"
  unfolding write_slice_def
  by (rule fold_preserves[where P = "\<lambda>a. length a = length xs"]) simp_all

lemma write_slice_nth:
  "write_slice off len vals xs ! k =
     (if off \<le> k \<and> k < off + len \<and> k < length xs then vals ! (k - off) else xs ! k)"
proof (induction len)
  case 0
  show ?case by (auto simp: write_slice_def)
next
  case (Suc len)
  have step: "write_slice off (Suc len) vals xs = (write_slice off len vals xs)[off + len := vals ! len]"
    by (simp add: write_slice_def)
  show ?case
  proof (cases "k = off + len")
    case True
    show ?thesis
    proof (cases "off + len < length xs")
      case True
      then show ?thesis using \<open>k = off + len\<close> by (simp add: step write_slice_length)
    next
      case False
      then have "length (write_slice off len vals xs) \<le> off + len"
        by (simp add: write_slice_length)
      then have "write_slice off (Suc len) vals xs = write_slice off len vals xs"
        unfolding step by (rule list_update_beyond)
      then show ?thesis using Suc False \<open>k = off + len\<close> by simp
    qed
  next
    case False
    then show ?thesis using Suc by (auto simp: step)
  qed
qed

lemma slice_nth:
  assumes "j < len" "off + j < length xs"
  shows "slice off len xs ! j = xs ! (off + j)"
  using assms by (simp add: slice_def)

lemma slice_cong:
  assumes "\<forall>j<len. xs ! (off + j) = ys ! (off + j)"
    and "off + len \<le> length xs" and "off + len \<le> length ys"
  shows "slice off len xs = slice off len ys"
proof (rule nth_equalityI)
  show "length (slice off len xs) = length (slice off len ys)"
    using assms(2,3) by (simp add: slice_def)
next
  fix j assume "j < length (slice off len xs)"
  then have "j < len" by (simp add: slice_def)
  then show "slice off len xs ! j = slice off len ys ! j"
    using assms by (simp add: slice_def)
qed

lemma getVelocityChange_frame:
  "buf_x (gs_mem (call_getVelocityChange grp k index withBias s)) = buf_x (gs_mem s) \<and>
   gs_offset (call_getVelocityChange grp k index withBias s) = gs_offset s"
  by (simp add: call_getVelocityChange_def log_call_def Let_def split: prod.splits)

lemma mirror_block_frame:
  "buf_x (gs_mem (mirror_block grp nSkip i j k s)) = buf_x (gs_mem s) \<and>
   gs_offset (mirror_block grp nSkip i j k s) = gs_offset s"
  unfolding mirror_block_def
  by (rule fold_preserves[where P = "\<lambda>t. buf_x (gs_mem t) = buf_x (gs_mem s) \<and> gs_offset t = gs_offset s"])
     (simp_all add: Let_def)

lemma impulse_test_frame:
  "buf_x (gs_mem (impulse_test grp nSkip i j s)) = buf_x (gs_mem s) \<and>
   gs_offset (impulse_test grp nSkip i j s) = gs_offset s"
proof -
  let ?P = "\<lambda>t. buf_x (gs_mem t) = buf_x (gs_mem s) \<and> gs_offset t = gs_offset s"
  let ?m = "gs_mem s"
  let ?off = "gs_offset s ! i"
  define s1 where "s1 = (if buf_findex ?m ! (?off + j) \<ge> 0
                then s\<lparr>gs_mem := ?m\<lparr>buf_findex :=
                        (buf_findex ?m)[?off + j := buf_findex ?m ! (?off + j) + int ?off]\<rparr>\<rparr>
                else s)"
  define s2 where "s2 = log_call (ApplyUnitImpulse i j) (s1\<lparr>gs_world := applyUnitImpulse (grp ! i) j (gs_world s1)\<rparr>)"
  define s3 where "s3 = call_getVelocityChange grp i (nSkip * (?off + j) + ?off) True s2"
  define s4 where "s4 = fold (\<lambda>k s. call_getVelocityChange grp k (nSkip * (gs_offset s ! i + j) + gs_offset s ! k) False s)
                 [i + 1..<length grp] s3"
  have r: "impulse_test grp nSkip i j s = fold (mirror_block grp nSkip i j) [0..<i] s4"
    by (simp add: impulse_test_def Let_def s1_def s2_def s3_def s4_def)
  have p2: "?P s2" by (simp add: s2_def s1_def log_call_def)
  have p3: "?P s3" using p2 by (simp add: s3_def getVelocityChange_frame)
  have p4: "?P s4"
    unfolding s4_def
    by (rule fold_preserves[where P = ?P]) (simp_all add: p3 getVelocityChange_frame)
  have "?P (fold (mirror_block grp nSkip i j) [0..<i] s4)"
    by (rule fold_preserves[where P = ?P]) (simp_all add: p4 mirror_block_frame)
  then show ?thesis using r by simp
qed

lemma assemble_round_x:
  "gs_offset (assemble_round mTimeStep grp nSkip i s) = gs_offset s \<and>
   buf_x (gs_mem (assemble_round mTimeStep grp nSkip i s)) =
     write_slice (gs_offset s ! i) (getDimension (grp ! i))
       (ci_x (fst (getInformation (grp ! i) (constInfo mTimeStep grp i s) (gs_world s))))
       (buf_x (gs_mem s))"
proof -
  define s1 where "s1 = call_getInformation mTimeStep grp i s"
  define s2 where "s2 = log_call (Excite i) (s1\<lparr>gs_world := excite (grp ! i) (gs_world s1)\<rparr>)"
  define s3 where "s3 = fold (impulse_test grp nSkip i) [0..<getDimension (grp ! i)] s2"
  have r: "assemble_round mTimeStep grp nSkip i s =
      log_call (Unexcite i) (s3\<lparr>gs_world := unexcite (grp ! i) (gs_world s3)\<rparr>)"
    by (simp add: assemble_round_def fill_constraint_def Let_def s1_def s2_def s3_def)
  have "buf_x (gs_mem s3) = buf_x (gs_mem s2) \<and> gs_offset s3 = gs_offset s2"
    unfolding s3_def
    by (rule fold_preserves[where P = "\<lambda>t. buf_x (gs_mem t) = buf_x (gs_mem s2) \<and> gs_offset t = gs_offset s2"])
       (simp_all add: impulse_test_frame)
  then have "buf_x (gs_mem (assemble_round mTimeStep grp nSkip i s)) = buf_x (gs_mem s1) \<and>
      gs_offset (assemble_round mTimeStep grp nSkip i s) = gs_offset s1"
    by (simp add: r s2_def log_call_def)
  then show ?thesis
    by (simp add: s1_def call_getInformation_def log_call_def Let_def split: prod.splits)
qed

lemma rounds_x:
  assumes lx: "length (buf_x (gs_mem s0)) = getTotalDimension grp"
    and o0: "\<forall>i<length grp. gs_offset s0 ! i = offset_of grp i"
    and c: "c < length grp" and j: "j < getDimension (grp ! c)"
    and m: "m \<le> length grp"
  shows "gs_offset (fold (assemble_round mTimeStep grp nSkip) [0..<m] s0) = gs_offset s0 \<and>
         length (buf_x (gs_mem (fold (assemble_round mTimeStep grp nSkip) [0..<m] s0)))
           = getTotalDimension grp \<and>
         buf_x (gs_mem (fold (assemble_round mTimeStep grp nSkip) [0..<m] s0)) ! (offset_of grp c + j)
           = (if c < m
              then ci_x (fst (getInformation (grp ! c)
                     (constInfo mTimeStep grp c (fold (assemble_round mTimeStep grp nSkip) [0..<c] s0))
                     (gs_world (fold (assemble_round mTimeStep grp nSkip) [0..<c] s0)))) ! j
              else buf_x (gs_mem s0) ! (offset_of grp c + j))"
  using m
proof (induction m)
  case 0
  show ?case using lx by simp
next
  case (Suc m)
  let ?s = "fold (assemble_round mTimeStep grp nSkip) [0..<m] s0"
  let ?sc = "fold (assemble_round mTimeStep grp nSkip) [0..<c] s0"
  let ?p = "offset_of grp c + j"
  let ?d = "getDimension (grp ! m)"
  let ?v = "ci_x (fst (getInformation (grp ! c) (constInfo mTimeStep grp c ?sc) (gs_world ?sc))) ! j"
  have m: "m < length grp" using Suc.prems by simp
  have IH: "gs_offset ?s = gs_offset s0" "length (buf_x (gs_mem ?s)) = getTotalDimension grp"
    "buf_x (gs_mem ?s) ! ?p = (if c < m then ?v else buf_x (gs_mem s0) ! ?p)"
    using Suc.IH m by simp_all
  have om: "gs_offset ?s ! m = offset_of grp m"
    using IH(1) o0 m by simp
  have pn: "?p < getTotalDimension grp"
    using offset_of_total[OF c] j by simp
  note ac = assemble_round_x[of mTimeStep grp nSkip m ?s]
  let ?info = "fst (getInformation (grp ! m) (constInfo mTimeStep grp m ?s) (gs_world ?s))"
  let ?s' = "assemble_round mTimeStep grp nSkip m ?s"
  have x': "buf_x (gs_mem ?s') = write_slice (offset_of grp m) ?d (ci_x ?info) (buf_x (gs_mem ?s))"
    and o': "gs_offset ?s' = gs_offset s0"
    using ac om IH(1) by simp_all
  have l': "length (buf_x (gs_mem ?s')) = getTotalDimension grp"
    using x' IH(2) by (simp add: write_slice_length)
  have v: "buf_x (gs_mem ?s') ! ?p = (if c < Suc m then ?v else buf_x (gs_mem s0) ! ?p)"
  proof (cases "m = c")
    case True
    have "write_slice (offset_of grp m) ?d (ci_x ?info) (buf_x (gs_mem ?s)) ! ?p = ci_x ?info ! j"
      by (subst write_slice_nth) (use True j pn IH(2) in auto)
    then have "buf_x (gs_mem ?s') ! ?p = ci_x ?info ! j"
      by (subst x')
    then show ?thesis using True by simp
  next
    case False
    have out: "\<not> (offset_of grp m \<le> ?p \<and> ?p < offset_of grp m + ?d)"
    proof (cases "m < c")
      case True
      then show ?thesis using offset_of_mono[of m c grp] c by simp
    next
      case False
      then have "c < m" using \<open>m \<noteq> c\<close> by simp
      then show ?thesis using offset_of_mono[of c m grp] m j by simp
    qed
    then have "write_slice (offset_of grp m) ?d (ci_x ?info) (buf_x (gs_mem ?s)) ! ?p
        = buf_x (gs_mem ?s) ! ?p"
      by (subst write_slice_nth) auto
    then have "buf_x (gs_mem ?s') ! ?p = buf_x (gs_mem ?s) ! ?p"
      by (subst x')
    then show ?thesis using IH(3) False by (simp add: less_Suc_eq)
  qed
  show ?case using o' l' v by simp
qed

text \<open>
  C2 (amended). In \<open>solveConstrainedGroup\<close>, for every group with total dimension \<open>n > 0\<close>,
  \<open>x\<close> is not initialized by the function itself: when the call returns (no assertion of a
  debug build fails and the array of offsets is not overrun), the memory it leaves is what
  the boxed LCP solver made of the buffers the assembly left, and in those buffers entry
  \<open>j\<close> of constraint \<open>c\<close> holds what that constraint's own \<open>getInformation\<close> returned in its
  \<open>x\<close> slice. The callback was handed, as that slice, the content of the fresh allocation,
  and the world as the rounds of the constraints before \<open>c\<close> left it; what it returns may
  depend on both, and on its other slices.
\<close>

theorem x_at_solver_call:
  assumes "0 < getTotalDimension grp"
    and "length offset0 = getTotalDimension grp"
    and "length (buf_x alloc) = getTotalDimension grp"
    and "c < length grp" and "j < getDimension (grp ! c)"
    and "solveConstrainedGroup (Some solver) debug mTimeStep grp alloc offset0 world = Inr r"
  shows "\<exists>s1 sc. assemble debug mTimeStep grp alloc offset0 world = Inr s1 \<and>
           assemble_rounds debug mTimeStep grp alloc offset0 world c = Inr sc \<and>
           gs_mem r = solver (getTotalDimension grp) 0 (gs_mem s1) \<and>
           ci_x (constInfo mTimeStep grp c sc)
             = slice (offset_of grp c) (getDimension (grp ! c)) (buf_x alloc) \<and>
           buf_x (gs_mem s1) ! (offset_of grp c + j)
             = ci_x (fst (getInformation (grp ! c) (constInfo mTimeStep grp c sc) (gs_world sc))) ! j"
proof -
  let ?n = "getTotalDimension grp"
  let ?R = "assemble_round mTimeStep grp (dPAD ?n)"
  from solveConstrainedGroup_Inr[OF assms(1,6)]
  obtain solver' s1 where sv: "Some solver = Some solver'"
    and s1: "assemble debug mTimeStep grp alloc offset0 world = Inr s1"
    and r: "r = fold (apply_constraint_impulse grp) [0..<length grp]
                 (log_call SolveLcp (s1\<lparr>gs_mem := solver' ?n 0 (gs_mem s1)\<rparr>))"
    by (elim exE conjE)
  have mem: "gs_mem r = solver ?n 0 (gs_mem s1)"
    unfolding r using sv
      apply_loop_frame[of grp "[0..<length grp]" "log_call SolveLcp (s1\<lparr>gs_mem := solver' ?n 0 (gs_mem s1)\<rparr>)"]
    by (simp add: log_call_def)
  have full: "assemble_rounds debug mTimeStep grp alloc offset0 world (length grp) = Inr s1"
    by (rule assemble_Inr[OF s1])
  obtain sc where sc: "assemble_rounds debug mTimeStep grp alloc offset0 world c = Inr sc"
    using assemble_rounds_prefix[OF full, of c] assms(4) by auto
  obtain offset where off: "compute_offsets debug grp ?n offset0 = Inr offset"
    and s1': "s1 = fold ?R [0..<length grp] (assemble_start debug grp alloc offset world)"
    using assemble_rounds_Inr[OF full] by blast
  obtain offset' where off': "compute_offsets debug grp ?n offset0 = Inr offset'"
    and sc0: "sc = fold ?R [0..<c] (assemble_start debug grp alloc offset' world)"
    using assemble_rounds_Inr[OF sc] by blast
  have sc': "sc = fold ?R [0..<c] (assemble_start debug grp alloc offset world)"
    using off off' sc0 by simp
  let ?s0 = "assemble_start debug grp alloc offset world"
  have lx: "length (buf_x (gs_mem ?s0)) = ?n"
    using assms(3) by (simp add: assemble_start_def init_buffers_def)
  have o0: "\<forall>i<length grp. gs_offset ?s0 ! i = offset_of grp i"
    using compute_offsets_nth[OF off assms(2,1)] by (simp add: assemble_start_def)
  have x0: "buf_x (gs_mem ?s0) = buf_x alloc"
    by (simp add: assemble_start_def init_buffers_def)
  have cc: "c \<le> length grp" using assms(4) by simp
  have v: "buf_x (gs_mem s1) ! (offset_of grp c + j)
      = ci_x (fst (getInformation (grp ! c) (constInfo mTimeStep grp c sc) (gs_world sc))) ! j"
    using rounds_x[OF lx o0 assms(4,5) order_refl, of mTimeStep "dPAD ?n"] assms(4)
    by (simp add: s1' sc')
  have osc: "gs_offset sc = gs_offset ?s0" and lsc: "length (buf_x (gs_mem sc)) = ?n"
    using rounds_x[OF lx o0 assms(4,5) cc, of mTimeStep "dPAD ?n"] by (simp_all add: sc')
  have un: "\<forall>j'<getDimension (grp ! c). buf_x (gs_mem sc) ! (offset_of grp c + j')
      = buf_x alloc ! (offset_of grp c + j')"
  proof (intro allI impI)
    fix j' assume "j' < getDimension (grp ! c)"
    from rounds_x[OF lx o0 assms(4) this cc, of mTimeStep "dPAD ?n"]
    show "buf_x (gs_mem sc) ! (offset_of grp c + j') = buf_x alloc ! (offset_of grp c + j')"
      by (simp add: sc' x0)
  qed
  have "ci_x (constInfo mTimeStep grp c sc)
      = slice (offset_of grp c) (getDimension (grp ! c)) (buf_x (gs_mem sc))"
    using osc o0 assms(4) by (simp add: constInfo_def Let_def)
  also have "\<dots> = slice (offset_of grp c) (getDimension (grp ! c)) (buf_x alloc)"
    by (rule slice_cong[OF un]) (use offset_of_total[OF assms(4)] lsc assms(3) in simp_all)
  finally have sl: "ci_x (constInfo mTimeStep grp c sc)
      = slice (offset_of grp c) (getDimension (grp ! c)) (buf_x alloc)" .
  show ?thesis using s1 sc mem sl v by blast
qed

text \<open>The equations that evaluate the assembly on a concrete group.\<close>

lemmas group_eval = assemble_def assemble_rounds_def compute_offsets_def offset_round_def
  assemble_constraint_def fill_constraint_def call_getInformation_def constInfo_def
  impulse_test_def call_getVelocityChange_def mirror_block_def write_slice_def slice_def
  init_buffers_def log_call_def getTotalDimension_def sample_constraint_def offset_of_def
  isSymmetric_def isSymmetric_range_def mem_of_def dPAD_def Let_def upt_conv_Cons

theorem x_at_solver_call_witness:
  "0 < getTotalDimension [sample_constraint 0 1 (Some 5)] \<and>
   \<not> isl (solveConstrainedGroup (Some (solve typical_option)) False 1 [sample_constraint 0 1 (Some 5)]
      (mem_of [0, 0, 0, 0] [7] [0] [0] [0] [0]) [0] (\<lambda>p. False)) \<and>
   (\<exists>s1. assemble False 1 [sample_constraint 0 1 (Some 5)]
      (mem_of [0, 0, 0, 0] [7] [0] [0] [0] [0]) [0] (\<lambda>p. False) = Inr s1 \<and>
      buf_x (gs_mem s1) ! (offset_of [sample_constraint 0 1 (Some 5)] 0 + 0) = 5)"
proof -
  let ?g = "[sample_constraint 0 1 (Some 5)]"
  let ?a = "mem_of [0, 0, 0, 0] [7] [0] [0] [0] [0]"
  let ?X = "solveConstrainedGroup (Some (solve typical_option)) False 1 ?g ?a [0] (\<lambda>p. False)"
  have h: "0 < getTotalDimension ?g" "length [0::nat] = getTotalDimension ?g"
    "length (buf_x ?a) = getTotalDimension ?g" "(0::nat) < length ?g"
    "0 < getDimension (?g ! 0)"
    by (simp_all add: getTotalDimension_def sample_constraint_def mem_of_def)
  have "\<forall>c\<in>set ?g. 0 < getDimension c" by (simp add: sample_constraint_def)
  then obtain r where r: "?X = Inr r"
    using solveConstrainedGroup_returns[of ?g "solve typical_option" 1 ?a "[0]" "\<lambda>p. False"] by blast
  from x_at_solver_call[OF h r]
  obtain s1 sc where s1: "assemble False 1 ?g ?a [0] (\<lambda>p. False) = Inr s1"
    and v: "buf_x (gs_mem s1) ! (offset_of ?g 0 + 0)
      = ci_x (fst (getInformation (?g ! 0) (constInfo 1 ?g 0 sc) (gs_world sc))) ! 0"
    by (elim exE conjE)
  have "ci_x (fst (getInformation (?g ! 0) (constInfo 1 ?g 0 sc) (gs_world sc))) ! 0 = 5"
    by (simp add: sample_constraint_def)
  then show ?thesis using h(1) r s1 v by simp
qed

text \<open>
  With a constraint whose \<open>getInformation\<close> stores 5 in \<open>x\<close>, and with one that stores
  nothing into an allocation that holds 7, the assembly completes and \<open>x[0]\<close> is not 0 when
  the solver is invoked.
\<close>

theorem x_at_solver_call_counterexample:
  "0 < getTotalDimension [sample_constraint 0 1 (Some 5)] \<and>
   \<not> isl (assemble False 1 [sample_constraint 0 1 (Some 5)]
      (mem_of [0, 0, 0, 0] [0] [0] [0] [0] [0]) [0] (\<lambda>p. False)) \<and>
   buf_x (gs_mem (projr (assemble False 1 [sample_constraint 0 1 (Some 5)]
      (mem_of [0, 0, 0, 0] [0] [0] [0] [0] [0]) [0] (\<lambda>p. False)))) ! 0 \<noteq> 0 \<and>
   0 < getTotalDimension [sample_constraint 0 1 None] \<and>
   \<not> isl (assemble False 1 [sample_constraint 0 1 None]
      (mem_of [0, 0, 0, 0] [7] [0] [0] [0] [0]) [0] (\<lambda>p. False)) \<and>
   buf_x (gs_mem (projr (assemble False 1 [sample_constraint 0 1 None]
      (mem_of [0, 0, 0, 0] [7] [0] [0] [0] [0]) [0] (\<lambda>p. False)))) ! 0 \<noteq> 0"
  by (simp add: group_eval)

lemma replicate_num: "replicate (numeral k) x = x # replicate (pred_numeral k) x"
  by (simp add: numeral_eq_Suc)

theorem excite_unexcite_protocol_witness:
  "0 < getTotalDimension [sample_constraint 0 1 (Some 0), sample_constraint 1 2 (Some 0)] \<and>
   \<not> isl (solveConstrainedGroup (Some (solve typical_option)) True 1
        [sample_constraint 0 1 (Some 0), sample_constraint 1 2 (Some 0)]
        (mem_of (replicate 12 0) [0, 0, 0] [0, 0, 0] [0, 0, 0] [0, 0, 0] [0, 0, 0]) [0, 0, 0]
        (\<lambda>p. False)) \<and>
   gs_world (projr (solveConstrainedGroup (Some (solve typical_option)) True 1
        [sample_constraint 0 1 (Some 0), sample_constraint 1 2 (Some 0)]
        (mem_of (replicate 12 0) [0, 0, 0] [0, 0, 0] [0, 0, 0] [0, 0, 0] [0, 0, 0]) [0, 0, 0]
        (\<lambda>p. False))) 0 \<and>
   length (filter (about 0)
     (gs_calls (projr (solveConstrainedGroup (Some (solve typical_option)) True 1
        [sample_constraint 0 1 (Some 0), sample_constraint 1 2 (Some 0)]
        (mem_of (replicate 12 0) [0, 0, 0] [0, 0, 0] [0, 0, 0] [0, 0, 0] [0, 0, 0]) [0, 0, 0]
        (\<lambda>p. False))))) = 6"
proof -
  let ?g = "[sample_constraint 0 1 (Some 0), sample_constraint 1 2 (Some 0)]"
  let ?a = "mem_of (replicate 12 0) [0, 0, 0] [0, 0, 0] [0, 0, 0] [0, 0, 0] [0, 0, 0]"
  let ?X = "solveConstrainedGroup (Some (solve typical_option)) True 1 ?g ?a [0, 0, 0] (\<lambda>p. False)"
  let ?F = "fold_ok (assemble_constraint True 1 ?g (getTotalDimension ?g) (dPAD (getTotalDimension ?g)))
              [0..<length ?g] (assemble_start True ?g ?a [0, 1, 0] (\<lambda>p. False))"
  have h: "0 < getTotalDimension ?g" "(0::nat) < length ?g"
    by (simp_all add: getTotalDimension_def sample_constraint_def)
  have o: "compute_offsets True ?g (getTotalDimension ?g) [0, 0, 0] = Inr [0, 1, 0]"
    by (simp add: group_eval)
  have f: "\<not> isl ?F"
    by (simp add: group_eval assemble_start_def replicate_num split del: if_split)
  have y: "isSymmetric (getTotalDimension ?g) (buf_A (gs_mem (projr ?F)))"
    by (simp add: group_eval assemble_start_def replicate_num split del: if_split)
  obtain t where t: "?F = Inr t" using f by (cases ?F) simp_all
  have rr: "assemble_rounds True 1 ?g ?a [0, 0, 0] (\<lambda>p. False) (length ?g) = Inr t"
    by (simp only: assemble_rounds_start o sum.case t)
  have "isSymmetric (getTotalDimension ?g) (buf_A (gs_mem t))"
    using y by (simp only: t sum.sel)
  then have "assemble True 1 ?g ?a [0, 0, 0] (\<lambda>p. False) = Inr t"
    by (simp only: assemble_def rr sum.case simp_thms if_False)
  then have ok: "\<not> isl ?X"
    using solveConstrainedGroup_isl[OF h(1), of "solve typical_option" True 1 ?a "[0, 0, 0]" "\<lambda>p. False"]
    by simp
  then have r: "?X = Inr (projr ?X)" by simp
  note t = excite_unexcite_protocol[OF h r, where E = "\<lambda>w. w 0"]
  have e1: "\<forall>w. excite (?g ! 0) w 0" by (simp add: sample_constraint_def)
  have e2: "\<forall>k l w. 0 < k \<and> k < length ?g \<and> w 0 \<longrightarrow>
      applyImpulse (?g ! k) l w 0 \<and> excite (?g ! k) w 0"
    by (auto simp: sample_constraint_def less_Suc_eq)
  have w: "gs_world (projr ?X) 0" using t e1 e2 by blast
  have "length (filter (about 0) (gs_calls (projr ?X))) = 6"
    using arg_cong[OF t[THEN conjunct1], of length] by (simp add: sample_constraint_def)
  then show ?thesis using h(1) ok w by simp
qed

text \<open>
  A group whose first constraint has dimension zero does not return: a debug build stops at
  the assertion on the dimension, and a release build writes \<open>offset[1]\<close> behind the end of
  an array of \<open>n = 1\<close> entries.
\<close>

lemma zero_dimension_faults:
  "solveConstrainedGroup (Some solver) True 1 [sample_constraint 0 0 None, sample_constraint 1 1 None]
     (mem_of [0, 0, 0, 0] [0] [0] [0] [0] [0]) [0] (\<lambda>p. False) = Inl AssertionFailed \<and>
   solveConstrainedGroup (Some solver) False 1 [sample_constraint 0 0 None, sample_constraint 1 1 None]
     (mem_of [0, 0, 0, 0] [0] [0] [0] [0] [0]) [0] (\<lambda>p. False) = Inl OutOfBounds"
  by (simp add: solveConstrainedGroup_def assemble_def assemble_rounds_def compute_offsets_def
      offset_round_def getTotalDimension_def sample_constraint_def Let_def upt_conv_Cons)

end
